theory Spec2Isabelle
  imports Complex_Main "HOL-Library.AList" "HOL-Library.Monad_Syntax"
begin

section \<open>Characters and strings\<close>

text \<open>
  A JavaScript string is modelled as a \<^typ>\<open>string\<close>: the list of its code units, each
  read as a value below 256. The functions of this section are the library functions of
  \<^verbatim>\<open>String.prototype\<close> that the source calls, restricted to that range.
\<close>

definition DQ :: char where "DQ = CHR 0x22"
definition LF :: char where "LF = CHR 0x0A"
definition CR :: char where "CR = CHR 0x0D"
definition TAB :: char where "TAB = CHR 0x09"

text \<open>
  \<^verbatim>\<open>trim\<close> removes white space and line terminators at both ends. Below 256 these are
  TAB, LF, VT, FF, CR, SPACE and NBSP.
\<close>

definition is_space :: "char \<Rightarrow> bool" where
  "is_space c \<longleftrightarrow>
     c \<in> set [CHR 0x09, CHR 0x0A, CHR 0x0B, CHR 0x0C, CHR 0x0D, CHR 0x20, CHR 0xA0]"

definition trim :: "string \<Rightarrow> string" where
  "trim s = rev (dropWhile is_space (rev (dropWhile is_space s)))"

definition lower_char :: "char \<Rightarrow> char" where
  "lower_char c =
    (let n = (of_char c :: nat) in
     if (65 \<le> n \<and> n \<le> 90) \<or> (192 \<le> n \<and> n \<le> 222 \<and> n \<noteq> 215)
     then char_of (n + 32) else c)"

definition toLowerCase :: "string \<Rightarrow> string" where
  "toLowerCase s = map lower_char s"

definition is_digit :: "char \<Rightarrow> bool" where
  "is_digit c \<longleftrightarrow> c \<in> set ''0123456789''"

text \<open>The decimal digits of a natural number: how an array index or a column number prints.\<close>

fun show_nat :: "nat \<Rightarrow> string" where
  "show_nat n =
    (if n < 10 then [char_of (48 + n)]
     else show_nat (n div 10) @ [char_of (48 + n mod 10)])"

declare show_nat.simps [simp del]

fun join_with :: "string \<Rightarrow> string list \<Rightarrow> string" where
  "join_with sep [] = []"
| "join_with sep [x] = x"
| "join_with sep (x # y # ys) = x @ sep @ join_with sep (y # ys)"

text \<open>
  \<^verbatim>\<open>sample.split(/\r?\n/)\<close>: the text is cut at every LF, and a CR directly before the LF
  belongs to the separator. The accumulator holds the line being read.
\<close>

fun split_lines_acc :: "string \<Rightarrow> string \<Rightarrow> string list" where
  "split_lines_acc cur [] = [cur]"
| "split_lines_acc cur (c # rest) =
    (if c = LF then cur # split_lines_acc [] rest
     else if c = CR \<and> (case rest of n # _ \<Rightarrow> n = LF | [] \<Rightarrow> False)
       then cur # split_lines_acc [] (tl rest)
     else split_lines_acc (cur @ [c]) rest)"

definition split_lines :: "string \<Rightarrow> string list" where
  "split_lines s = split_lines_acc [] s"

fun enumerate_from :: "nat \<Rightarrow> 'a list \<Rightarrow> (nat \<times> 'a) list" where
  "enumerate_from i [] = []"
| "enumerate_from i (x # xs) = (i, x) # enumerate_from (Suc i) xs"

section \<open>CSV parser\<close>

text \<open>
  The loop variables of \<^verbatim>\<open>parseCSV\<close>. The loop index is the position in the text; the model
  carries the text still to be read instead, so \<^verbatim>\<open>text[i]\<close> is its head and
  \<^verbatim>\<open>text[i + 1]\<close> the head of its tail (\<^verbatim>\<open>undefined\<close> when there is none). The extra
  \<^verbatim>\<open>i++\<close> of the escaped quote drops two characters at once. No operation of the loop
  can throw on a string, so the result has no error value.
\<close>

record scanner =
  rows :: "string list list"
  field :: string
  row :: "string list"
  inQuotes :: bool

definition scanner0 :: scanner where
  "scanner0 = \<lparr>rows = [], field = [], row = [], inQuotes = False\<rparr>"

function scan :: "char \<Rightarrow> string \<Rightarrow> scanner \<Rightarrow> scanner" where
  "scan delimiter [] s = s"
| "scan delimiter (c # rest) s =
    (if inQuotes s then
       (case rest of
          n # rest' \<Rightarrow>
            if c = DQ \<and> n = DQ then scan delimiter rest' (s\<lparr>field := field s @ [DQ]\<rparr>)
            else if c = DQ then scan delimiter rest (s\<lparr>inQuotes := False\<rparr>)
            else scan delimiter rest (s\<lparr>field := field s @ [c]\<rparr>)
        | [] \<Rightarrow>
            if c = DQ then scan delimiter rest (s\<lparr>inQuotes := False\<rparr>)
            else scan delimiter rest (s\<lparr>field := field s @ [c]\<rparr>))
     else if c = DQ then scan delimiter rest (s\<lparr>inQuotes := True\<rparr>)
     else if c = delimiter then
       scan delimiter rest (s\<lparr>row := row s @ [field s], field := []\<rparr>)
     else if c = LF then
       scan delimiter rest
         (s\<lparr>rows := rows s @ [row s @ [field s]], row := [], field := []\<rparr>)
     else if c = CR then scan delimiter rest s
     else scan delimiter rest (s\<lparr>field := field s @ [c]\<rparr>))"
  by pat_completeness auto

text \<open>The loop ends: every round leaves less of the text to read.\<close>

termination
  by (relation "measure (\<lambda>(delimiter, text, s). length text)") auto

definition flush :: "scanner \<Rightarrow> string list list" where
  "flush s =
    (if field s \<noteq> [] \<or> inQuotes s \<or> row s \<noteq> []
     then rows s @ [row s @ [field s]] else rows s)"

definition parseCSV :: "string \<Rightarrow> char \<Rightarrow> string list list" where
  "parseCSV text delimiter = flush (scan delimiter text scanner0)"

text \<open>Reading a cell by row and column, \<^const>\<open>None\<close> where the table has no such cell.\<close>

definition cell_at :: "string list list \<Rightarrow> nat \<Rightarrow> nat \<Rightarrow> string option" where
  "cell_at rs i j =
    (if i < length rs \<and> j < length (rs ! i) then Some (rs ! i ! j) else None)"

text \<open>
  A field in quoted form: a quote, the content with every quote in it doubled, a quote.
\<close>

definition escape_quotes :: "string \<Rightarrow> string" where
  "escape_quotes content = concat (map (\<lambda>c. if c = DQ then [DQ, DQ] else [c]) content)"

definition quoted :: "string \<Rightarrow> string" where
  "quoted content = [DQ] @ escape_quotes content @ [DQ]"

section \<open>Values\<close>

text \<open>
  The values that \<^verbatim>\<open>JSON.parse\<close> builds and the converter passes on. An object is the list
  of its own properties in the order \<^verbatim>\<open>Object.entries\<close> lists them; its keys are distinct
  in every object JavaScript builds. (A record built by the converter lists its
  properties in the order of insertion, which is the order of \<^verbatim>\<open>Object.entries\<close> unless a
  column name is an array index.) Numbers are kept abstract (type \<open>'n\<close>): what
  \<^verbatim>\<open>Number\<close>, \<^verbatim>\<open>String\<close>, the arithmetic operators and \<^verbatim>\<open>JSON.parse\<close> compute is
  the platform's business and comes in as a parameter.
\<close>

datatype 'n jsval =
    Null
  | Bool bool
  | Num 'n
  | Str string
  | Arr "'n jsval list"
  | Obj "(string \<times> 'n jsval) list"

record 'n platform =
  string_to_number :: "string \<Rightarrow> 'n"
  number_to_string :: "'n \<Rightarrow> string"
  number_of_nat :: "nat \<Rightarrow> 'n"
  number_is_finite :: "'n \<Rightarrow> bool"
  number_is_falsy :: "'n \<Rightarrow> bool"
  num_add :: "'n \<Rightarrow> 'n \<Rightarrow> 'n"
  num_sub :: "'n \<Rightarrow> 'n \<Rightarrow> 'n"
  num_mul :: "'n \<Rightarrow> 'n \<Rightarrow> 'n"
  num_div :: "'n \<Rightarrow> 'n \<Rightarrow> 'n"
  num_pow :: "'n \<Rightarrow> 'n \<Rightarrow> 'n"
  num_gt :: "'n \<Rightarrow> 'n \<Rightarrow> bool"
  neg_infinity :: "'n"
  json_parse :: "string \<Rightarrow> 'n jsval option"

text \<open>
  \<^const>\<open>json_parse\<close> is \<^const>\<open>None\<close> where \<^verbatim>\<open>JSON.parse\<close> throws. In every other
  function of the model \<^const>\<open>None\<close> stands for a thrown \<^verbatim>\<open>TypeError\<close>.
\<close>

fun mapM :: "('a \<Rightarrow> 'b option) \<Rightarrow> 'a list \<Rightarrow> 'b list option" where
  "mapM f [] = Some []"
| "mapM f (x # xs) = do { y \<leftarrow> f x; ys \<leftarrow> mapM f xs; Some (y # ys) }"

lemma mapM_cong [fundef_cong]:
  "xs = ys \<Longrightarrow> (\<And>x. x \<in> set ys \<Longrightarrow> f x = g x) \<Longrightarrow> mapM f xs = mapM g ys"
  by (induction ys arbitrary: xs) (auto cong: Option.bind_cong)

text \<open>
  \<^verbatim>\<open>String(v)\<close>. An array joins the strings of its elements with commas, \<^verbatim>\<open>null\<close>
  counting as the empty string. A plain object answers \<^verbatim>\<open>[object Object]\<close> through
  \<^verbatim>\<open>Object.prototype.toString\<close>, unless it has an own property \<^verbatim>\<open>toString\<close>: a parsed
  value is never callable, \<^verbatim>\<open>valueOf\<close> gives back the object, and the conversion throws.
\<close>

fun to_string :: "'n platform \<Rightarrow> 'n jsval \<Rightarrow> string option" where
  "to_string P Null = Some ''null''"
| "to_string P (Bool b) = Some (if b then ''true'' else ''false'')"
| "to_string P (Num n) = Some (number_to_string P n)"
| "to_string P (Str s) = Some s"
| "to_string P (Arr xs) =
     map_option (join_with '','')
       (mapM (\<lambda>x. case x of Null \<Rightarrow> Some [] | _ \<Rightarrow> to_string P x) xs)"
| "to_string P (Obj kvs) =
     (if ''toString'' \<in> set (map fst kvs) then None else Some ''[object Object]'')"

text \<open>\<^verbatim>\<open>Number(v)\<close>: arrays and objects are converted through their string.\<close>

definition to_number :: "'n platform \<Rightarrow> 'n jsval \<Rightarrow> 'n option" where
  "to_number P v =
    (case v of
       Null \<Rightarrow> Some (number_of_nat P 0)
     | Bool b \<Rightarrow> Some (number_of_nat P (if b then 1 else 0))
     | Num n \<Rightarrow> Some n
     | Str s \<Rightarrow> Some (string_to_number P s)
     | _ \<Rightarrow> map_option (string_to_number P) (to_string P v))"

text \<open>\<^verbatim>\<open>Boolean(v)\<close>, the test behind \<^verbatim>\<open>v && ...\<close>.\<close>

definition truthy :: "'n platform \<Rightarrow> 'n jsval \<Rightarrow> bool" where
  "truthy P v =
    (case v of
       Null \<Rightarrow> False
     | Bool b \<Rightarrow> b
     | Num n \<Rightarrow> \<not> number_is_falsy P n
     | Str s \<Rightarrow> s \<noteq> []
     | _ \<Rightarrow> True)"

text \<open>
  \<^verbatim>\<open>out[k] = v\<close> on an object built from \<^verbatim>\<open>{}\<close>: the property is updated in place or
  added at the end. The key \<^verbatim>\<open>__proto__\<close> is the accessor of \<^verbatim>\<open>Object.prototype\<close>, and
  assigning to it creates no own property.
\<close>

definition obj_set :: "(string \<times> 'v) list \<Rightarrow> string \<Rightarrow> 'v \<Rightarrow> (string \<times> 'v) list" where
  "obj_set out k v = (if k = ''__proto__'' then out else AList.update k v out)"

definition from_entries :: "(string \<times> 'v) list \<Rightarrow> (string \<times> 'v) list" where
  "from_entries es = foldl (\<lambda>out (k, v). obj_set out k v) [] es"

text \<open>
  \<^verbatim>\<open>Object.entries(v)\<close>: the properties of an object, the indexed elements of an array,
  the indexed characters of a string, nothing for any other value.
\<close>

definition entries :: "'n jsval \<Rightarrow> (string \<times> 'n jsval) list" where
  "entries v =
    (case v of
       Obj kvs \<Rightarrow> kvs
     | Arr xs \<Rightarrow> map (\<lambda>(i, x). (show_nat i, x)) (enumerate_from 0 xs)
     | Str s \<Rightarrow> map (\<lambda>(i, c). (show_nat i, Str [c])) (enumerate_from 0 s)
     | _ \<Rightarrow> [])"

section \<open>DynamoDB AttributeValue unmarshalling\<close>

definition AV_KEYS :: "string list" where
  "AV_KEYS = [''S'', ''N'', ''BOOL'', ''NULL'', ''M'', ''L'', ''SS'', ''NS'', ''BS'', ''B'']"

definition isAttributeValue :: "'n jsval \<Rightarrow> bool" where
  "isAttributeValue obj =
    (case obj of
       Obj kvs \<Rightarrow> (case kvs of [(k, v)] \<Rightarrow> k \<in> set AV_KEYS | _ \<Rightarrow> False)
     | _ \<Rightarrow> False)"

definition maybeMapOfAVs :: "'n jsval \<Rightarrow> bool" where
  "maybeMapOfAVs obj =
    (let es = map snd (entries obj) in es \<noteq> [] \<and> list_all isAttributeValue es)"

lemma size_elem: "x \<in> set xs \<Longrightarrow> size x < Suc (size_list size xs)"
  by (induction xs) auto

lemma size_entry:
  "(k, x) \<in> set kvs \<Longrightarrow> size x < Suc (size_list (size_prod (\<lambda>x. 0) size) kvs)"
  by (induction kvs) auto

lemma size_map_of:
  "map_of kvs k = Some x \<Longrightarrow> size x < Suc (size_list (size_prod (\<lambda>x. 0) size) kvs)"
  by (auto dest: map_of_SomeD size_entry)

lemma in_enumerate_from: "(i, x) \<in> set (enumerate_from n xs) \<Longrightarrow> x \<in> set xs"
  by (induction xs arbitrary: n) auto

lemma entries_size:
  assumes "(k, y) \<in> set (entries obj)"
  shows "Suc (3 * size y) < 3 * size obj + (case obj of Obj _ \<Rightarrow> 0 | _ \<Rightarrow> 2)"
proof (cases obj)
  case (Arr xs)
  then show ?thesis using assms size_elem[of y xs]
    by (auto simp: entries_def dest!: in_enumerate_from)
next
  case (Obj kvs)
  then show ?thesis using assms size_entry[of k y kvs]
    by (auto simp: entries_def)
qed (use assms in \<open>auto simp: entries_def\<close>)

text \<open>
  The three mutually recursive functions of the source. \<^verbatim>\<open>unmarshallAV(av)\<close> reads the one
  key \<open>t\<close> of \<open>av\<close> and its payload \<open>v\<close>; the model passes the two along. In
  \<^verbatim>\<open>unmarshallDeep\<close> the property \<^verbatim>\<open>value.M\<close> is \<^verbatim>\<open>undefined\<close>, hence falsy, when the
  object has no key \<^verbatim>\<open>M\<close>.
\<close>

function (sequential)
  unmarshallDeep :: "'n platform \<Rightarrow> 'n jsval \<Rightarrow> 'n jsval option" and
  unmarshallAV :: "'n platform \<Rightarrow> string \<Rightarrow> 'n jsval \<Rightarrow> 'n jsval option" and
  unmarshallMap :: "'n platform \<Rightarrow> 'n jsval \<Rightarrow> 'n jsval option"
where
  "unmarshallDeep P value =
    (if isAttributeValue value then
       (case value of Obj [(t, v)] \<Rightarrow> unmarshallAV P t v | _ \<Rightarrow> None)
     else
       (case value of
          Arr xs \<Rightarrow> map_option Arr (mapM (unmarshallDeep P) xs)
        | Obj kvs \<Rightarrow>
            (case map_of kvs ''M'' of
               Some m \<Rightarrow>
                 if truthy P m \<and> isAttributeValue (Obj [(''M'', m)])
                 then unmarshallAV P ''M'' m
                 else if maybeMapOfAVs value then unmarshallMap P value
                 else map_option (Obj \<circ> from_entries)
                        (mapM (\<lambda>(k, v). map_option (Pair k) (unmarshallDeep P v)) kvs)
             | None \<Rightarrow>
                 if maybeMapOfAVs value then unmarshallMap P value
                 else map_option (Obj \<circ> from_entries)
                        (mapM (\<lambda>(k, v). map_option (Pair k) (unmarshallDeep P v)) kvs))
        | _ \<Rightarrow> Some value))"
| "unmarshallAV P t v =
    (if t = ''S'' then map_option Str (to_string P v)
     else if t = ''N'' then map_option Num (to_number P v)
     else if t = ''BOOL'' then Some (Bool (truthy P v))
     else if t = ''NULL'' then Some Null
     else if t = ''SS'' then
       (case v of
          Arr xs \<Rightarrow> map_option Arr (mapM (\<lambda>x. map_option Str (to_string P x)) xs)
        | _ \<Rightarrow> Some (Arr []))
     else if t = ''NS'' then
       (case v of
          Arr xs \<Rightarrow> map_option Arr (mapM (\<lambda>x. map_option Num (to_number P x)) xs)
        | _ \<Rightarrow> Some (Arr []))
     else if t = ''L'' then
       (case v of
          Arr xs \<Rightarrow> map_option Arr (mapM (unmarshallDeep P) xs)
        | _ \<Rightarrow> Some (Arr []))
     else if t = ''M'' then unmarshallMap P v
     else Some v)"
| "unmarshallMap P obj =
    map_option (Obj \<circ> from_entries)
      (mapM (\<lambda>(k, v). map_option (Pair k) (unmarshallDeep P v)) (entries obj))"
  by pat_completeness auto
termination
  apply (relation "measure (\<lambda>x. case x of
      Inl (P, v) \<Rightarrow> 3 * size v + 1
    | Inr (Inl (P, t, v)) \<Rightarrow> 3 * size v + 3
    | Inr (Inr (P, v)) \<Rightarrow> 3 * size v + (case v of Obj _ \<Rightarrow> 0 | _ \<Rightarrow> 2))")
  apply simp_all
  subgoal by (auto split: prod.splits)
  subgoal by (drule size_elem) simp
  subgoal by (clarsimp, drule size_entry, simp)
  subgoal by (drule size_map_of) simp
  subgoal by (clarsimp, drule size_entry, simp)
  subgoal by (drule size_elem) simp
  subgoal by (auto split: jsval.splits)
  subgoal by (clarsimp, drule entries_size, simp)
  done

declare unmarshallDeep.simps [simp del]
declare unmarshallAV.simps [simp del]
declare unmarshallMap.simps [simp del]

text \<open>\<^verbatim>\<open>unmarshallAV(av)\<close> on an object \<open>av\<close> of one key, as \<^verbatim>\<open>unmarshallDeep\<close> calls it.\<close>

definition unmarshall_as_AV :: "'n platform \<Rightarrow> 'n jsval \<Rightarrow> 'n jsval option" where
  "unmarshall_as_AV P av = (case av of Obj [(t, v)] \<Rightarrow> unmarshallAV P t v | _ \<Rightarrow> None)"

section \<open>Type inference\<close>

text \<open>
  Regular expressions, as far as the literal of \<^verbatim>\<open>inferScalar\<close> needs them, and the test
  of a whole string against one (the literal is anchored at both ends) by derivatives.
\<close>

datatype rexp =
    Zero
  | One
  | Chars "char list"
  | Times rexp rexp
  | Alt rexp rexp
  | Star rexp

definition Opt :: "rexp \<Rightarrow> rexp" where
  "Opt r = Alt r One"

definition Many1 :: "rexp \<Rightarrow> rexp" where
  "Many1 r = Times r (Star r)"

definition Digit :: rexp where
  "Digit = Chars ''0123456789''"

fun nullable :: "rexp \<Rightarrow> bool" where
  "nullable Zero = False"
| "nullable One = True"
| "nullable (Chars cs) = False"
| "nullable (Times r s) = (nullable r \<and> nullable s)"
| "nullable (Alt r s) = (nullable r \<or> nullable s)"
| "nullable (Star r) = True"

fun deriv :: "char \<Rightarrow> rexp \<Rightarrow> rexp" where
  "deriv c Zero = Zero"
| "deriv c One = Zero"
| "deriv c (Chars cs) = (if c \<in> set cs then One else Zero)"
| "deriv c (Times r s) =
    (if nullable r then Alt (Times (deriv c r) s) (deriv c s) else Times (deriv c r) s)"
| "deriv c (Alt r s) = Alt (deriv c r) (deriv c s)"
| "deriv c (Star r) = Times (deriv c r) (Star r)"

fun regex_test :: "rexp \<Rightarrow> string \<Rightarrow> bool" where
  "regex_test r [] = nullable r"
| "regex_test r (c # cs) = regex_test (deriv c r) cs"

text \<open>\<^verbatim>\<open>/^-?\d+(?:\.\d+)?(?:[eE][+-]?\d+)?$/\<close>\<close>

definition numeric_regex :: rexp where
  "numeric_regex =
    Times (Opt (Chars ''-''))
      (Times (Many1 Digit)
        (Times (Opt (Times (Chars ''.'') (Many1 Digit)))
          (Opt (Times (Chars ''eE'') (Times (Opt (Chars ''+-'')) (Many1 Digit))))))"

definition inferScalar :: "'n platform \<Rightarrow> 'n jsval \<Rightarrow> 'n jsval" where
  "inferScalar P v =
    (case v of
       Str str \<Rightarrow>
         (let t = trim str in
          if t = [] then v
          else
            let lower = toLowerCase t in
            if lower = ''null'' then Null
            else if lower = ''true'' then Bool True
            else if lower = ''false'' then Bool False
            else if regex_test numeric_regex t
                    \<and> number_is_finite P (string_to_number P t)
              then Num (string_to_number P t)
            else v)
     | _ \<Rightarrow> v)"

fun coerceDeep :: "'n platform \<Rightarrow> 'n jsval \<Rightarrow> 'n jsval" where
  "coerceDeep P (Arr xs) = Arr (map (coerceDeep P) xs)"
| "coerceDeep P (Obj kvs) = Obj (from_entries (map (\<lambda>(k, v). (k, coerceDeep P v)) kvs))"
| "coerceDeep P v = inferScalar P v"

section \<open>Rows to records\<close>

definition looksLikeJSON :: "'n jsval \<Rightarrow> bool" where
  "looksLikeJSON v =
    (case v of
       Str s \<Rightarrow>
         (case trim s of
            [] \<Rightarrow> False
          | c # rest \<Rightarrow>
              c = CHR ''{'' \<or> c = CHR ''['' \<or>
              (c = DQ \<and> (case rest of n # _ \<Rightarrow> n = CHR ''{'' \<or> n = CHR ''['' | [] \<Rightarrow> False)))
     | _ \<Rightarrow> False)"

record options =
  parseNestedJSON :: bool
  doUnmarshall :: bool
  doInferTypes :: bool

text \<open>\<^verbatim>\<open>typeof v === 'object'\<close> holds of arrays, objects and \<^verbatim>\<open>null\<close>.\<close>

definition typeof_object :: "'n jsval \<Rightarrow> bool" where
  "typeof_object v = (case v of Null \<Rightarrow> True | Arr _ \<Rightarrow> True | Obj _ \<Rightarrow> True | _ \<Rightarrow> False)"

text \<open>
  The body of the \<^verbatim>\<open>forEach\<close> callback up to the assignment: what becomes of one cell.
  The \<^verbatim>\<open>catch\<close> keeps the string when \<^verbatim>\<open>JSON.parse\<close> throws.
\<close>

definition field_value :: "'n platform \<Rightarrow> options \<Rightarrow> string \<Rightarrow> 'n jsval option" where
  "field_value P opts cell =
    (let v = Str cell;
         v = (if parseNestedJSON opts \<and> looksLikeJSON v
              then (case json_parse P cell of Some parsed \<Rightarrow> parsed | None \<Rightarrow> v)
              else v)
     in do {
       v \<leftarrow> (if doUnmarshall opts \<and> truthy P v \<and> typeof_object v
              then unmarshallDeep P v else Some v);
       Some (if doInferTypes opts then coerceDeep P v else v)
     })"

text \<open>\<^verbatim>\<open>r[idx] ?? ""\<close> and \<^verbatim>\<open>h || `col_${idx + 1}`\<close>.\<close>

definition cell_or_empty :: "string list \<Rightarrow> nat \<Rightarrow> string" where
  "cell_or_empty r idx = (if idx < length r then r ! idx else [])"

definition column_name :: "string \<Rightarrow> nat \<Rightarrow> string" where
  "column_name h idx = (if h \<noteq> [] then h else ''col_'' @ show_nat (idx + 1))"

fun build_record ::
  "'n platform \<Rightarrow> options \<Rightarrow> string list \<Rightarrow> (nat \<times> string) list \<Rightarrow>
     (string \<times> 'n jsval) list \<Rightarrow> (string \<times> 'n jsval) list option" where
  "build_record P opts r [] obj = Some obj"
| "build_record P opts r ((idx, h) # hs) obj =
    do {
      v \<leftarrow> field_value P opts (cell_or_empty r idx);
      build_record P opts r hs (obj_set obj (column_name h idx) v)
    }"

definition nonblank_row :: "string list \<Rightarrow> bool" where
  "nonblank_row r = list_ex (\<lambda>cell. trim cell \<noteq> []) r"

definition convertRowsToObjects ::
  "'n platform \<Rightarrow> string list list \<Rightarrow> options \<Rightarrow> 'n jsval list option" where
  "convertRowsToObjects P rws opts =
    (case rws of
       [] \<Rightarrow> Some []
     | header # dataRows \<Rightarrow>
         (let headers = map trim header in
          mapM (\<lambda>r. map_option Obj (build_record P opts r (enumerate_from 0 headers) []))
            (filter nonblank_row dataRows)))"

section \<open>Delimiter detection\<close>

definition CANDIDATES :: "char list" where
  "CANDIDATES = [CHR '','', TAB, CHR '';'', CHR ''|'', CHR '':'']"

definition first_lines :: "string \<Rightarrow> string" where
  "first_lines sample = join_with [LF] (take 20 (split_lines sample))"

text \<open>
  One round of the loop over the candidates: \<^const>\<open>None\<close> when the candidate is passed
  over (\<^verbatim>\<open>continue\<close>, or a header of one column), else its score.
\<close>

definition candidate_score :: "'n platform \<Rightarrow> string \<Rightarrow> char \<Rightarrow> 'n option" where
  "candidate_score P text d =
    (let rws = parseCSV text d in
     if length rws < 2 then None
     else
       let lens = map length rws;
           headerCols = hd lens;
           nonEmpty = filter nonblank_row (tl rws);
           matching = length (filter (\<lambda>r. length r = headerCols) nonEmpty);
           uniqueLens = length (remdups lens)
       in
       if headerCols > 1 then
         let n = number_of_nat P;
             mean = num_div P (foldl (\<lambda>a c. num_add P a (n c)) (n 0) lens) (n (length lens));
             variance =
               num_div P
                 (foldl (\<lambda>a c. num_add P a (num_pow P (num_sub P (n c) mean) (n 2))) (n 0) lens)
                 (n (length lens))
         in Some (num_sub P
                    (num_sub P (num_mul P (n matching) (n 100)) (num_mul P variance (n 10)))
                    (num_mul P (num_sub P (n uniqueLens) (n 1)) (n 5)))
       else None)"

definition detect_step :: "'n platform \<Rightarrow> string \<Rightarrow> char \<times> 'n \<Rightarrow> char \<Rightarrow> char \<times> 'n" where
  "detect_step P text acc d =
    (case candidate_score P text d of
       None \<Rightarrow> acc
     | Some score \<Rightarrow> if num_gt P score (snd acc) then (d, score) else acc)"

definition detectDelimiterByStructure :: "'n platform \<Rightarrow> string \<Rightarrow> char" where
  "detectDelimiterByStructure P sample =
    fst (foldl (detect_step P (first_lines sample)) (CHR '','', neg_infinity P) CANDIDATES)"

section \<open>The language of a regular expression\<close>

text \<open>
  What a regular expression denotes: the set of the strings it matches as a whole.
\<close>

definition conc :: "string set \<Rightarrow> string set \<Rightarrow> string set" where
  "conc A B = {u @ v | u v. u \<in> A \<and> v \<in> B}"

inductive_set star :: "string set \<Rightarrow> string set" for A :: "string set" where
  star_empty: "[] \<in> star A"
| star_step: "u \<in> A \<Longrightarrow> v \<in> star A \<Longrightarrow> u @ v \<in> star A"

fun lang :: "rexp \<Rightarrow> string set" where
  "lang Zero = {}"
| "lang One = {[]}"
| "lang (Chars cs) = {[c] | c. c \<in> set cs}"
| "lang (Times r s) = conc (lang r) (lang s)"
| "lang (Alt r s) = lang r \<union> lang s"
| "lang (Star r) = star (lang r)"

text \<open>
  The numeric pattern in the words of the specification,
  \<^verbatim>\<open>-?digits(.digits)?([eE][+-]?digits)?\<close>: an optional minus sign, digits, optionally a
  point and digits, optionally an exponent mark, an optional sign and digits, where
  digits are one or more of \<^verbatim>\<open>0\<close> to \<^verbatim>\<open>9\<close>.
\<close>

definition spec_digits :: "string \<Rightarrow> bool" where
  "spec_digits ds \<longleftrightarrow> ds \<noteq> [] \<and> (\<forall>c \<in> set ds. is_digit c)"

definition spec_numeric_pattern :: "string \<Rightarrow> bool" where
  "spec_numeric_pattern t \<longleftrightarrow>
    (\<exists>sign ip frac ex.
       t = sign @ ip @ frac @ ex
       \<and> (sign = [] \<or> sign = ''-'')
       \<and> spec_digits ip
       \<and> (frac = [] \<or> (\<exists>fp. frac = ''.'' @ fp \<and> spec_digits fp))
       \<and> (ex = [] \<or>
            (\<exists>e sg ds. ex = e # sg @ ds \<and> (e = CHR ''e'' \<or> e = CHR ''E'')
               \<and> (sg = [] \<or> sg = ''+'' \<or> sg = ''-'') \<and> spec_digits ds)))"

text \<open>
  A case-insensitive match against a word of lower-case letters: the same length, and
  at each place the letter of the word or its capital.
\<close>

definition spec_ci_match :: "string \<Rightarrow> string \<Rightarrow> bool" where
  "spec_ci_match t w \<longleftrightarrow>
     list_all2 (\<lambda>a b. a = b \<or> (of_char a :: nat) + 32 = of_char b) t w"

text \<open>
  The names under which the columns of a header row are stored: the trimmed header text,
  or the positional name of a blank header.
\<close>

definition column_names :: "string list \<Rightarrow> string list" where
  "column_names header =
     map (\<lambda>(idx, h). column_name h idx) (enumerate_from 0 (map trim header))"

section \<open>The detector in the words of the specification\<close>

text \<open>
  The lines of a text: it is cut at every line feed, and a carriage return directly before
  the line feed belongs to the line break, not to the line. A text with \<open>n\<close> line feeds
  has \<open>n + 1\<close> lines, the last of which may be empty.
\<close>

definition chomp :: "string \<Rightarrow> string" where
  "chomp l = (if l \<noteq> [] \<and> last l = CR then butlast l else l)"

function spec_lines :: "string \<Rightarrow> string list" where
  "spec_lines s =
    (if LF \<in> set s
     then chomp (takeWhile (\<lambda>c. c \<noteq> LF) s) # spec_lines (tl (dropWhile (\<lambda>c. c \<noteq> LF) s))
     else [s])"
  by pat_completeness auto
termination
proof (relation "measure length")
  fix s :: string
  assume "LF \<in> set s"
  then have "dropWhile (\<lambda>c. c \<noteq> LF) s \<noteq> []" by (simp add: dropWhile_eq_Nil_conv)
  then have "length (tl (dropWhile (\<lambda>c. c \<noteq> LF) s)) < length (dropWhile (\<lambda>c. c \<noteq> LF) s)"
    by (cases "dropWhile (\<lambda>c. c \<noteq> LF) s") auto
  also have "\<dots> \<le> length s" by (rule length_dropWhile_le)
  finally show "(tl (dropWhile (\<lambda>c. c \<noteq> LF) s), s) \<in> measure length" by simp
qed simp

declare spec_lines.simps [simp del]

text \<open>
  The first 20 lines of a sample, as one text again: every line but the last is followed
  by a line feed.
\<close>

definition spec_joined :: "string list \<Rightarrow> string" where
  "spec_joined ls = (if ls = [] then [] else concat (map (\<lambda>l. l @ [LF]) (butlast ls)) @ last ls)"

definition spec_first_lines :: "string \<Rightarrow> string" where
  "spec_first_lines sample = spec_joined (take 20 (spec_lines sample))"

text \<open>
  The score as the specification computes it, from the rows that a candidate yields:
  \<open>headerCols\<close> is the length of row 0; the non-empty data rows are the rows after it
  that have a field with a character that is not white space; \<open>matching\<close> counts
  those of them whose length is \<open>headerCols\<close>; \<open>uniqueLens\<close> is the number of distinct
  row lengths; mean and variance are those of the row lengths; the score is
  \<^verbatim>\<open>matching*100 - variance*10 - (uniqueLens-1)*5\<close>.
\<close>

definition spec_score :: "'n platform \<Rightarrow> string list list \<Rightarrow> 'n" where
  "spec_score P rws =
    (let n = number_of_nat P;
         lens = map length rws;
         headerCols = length (hd rws);
         nonEmptyDataRows = filter (\<lambda>r. \<exists>f \<in> set r. \<exists>c \<in> set f. \<not> is_space c) (tl rws);
         matching = length (filter (\<lambda>r. length r = headerCols) nonEmptyDataRows);
         uniqueLens = card (set lens);
         mean = num_div P (foldl (\<lambda>a c. num_add P a (n c)) (n 0) lens) (n (length rws));
         variance =
           num_div P
             (foldl (\<lambda>a c. num_add P a (num_pow P (num_sub P (n c) mean) (n 2))) (n 0) lens)
             (n (length rws))
     in num_sub P
          (num_sub P (num_mul P (n matching) (n 100)) (num_mul P variance (n 10)))
          (num_mul P (num_sub P (n uniqueLens) (n 1)) (n 5)))"

text \<open>
  A candidate qualifies when it yields at least two rows and a header row of more than
  one column.
\<close>

definition qualifies :: "string \<Rightarrow> char \<Rightarrow> bool" where
  "qualifies text d \<longleftrightarrow> 2 \<le> length (parseCSV text d) \<and> 1 < length (hd (parseCSV text d))"

text \<open>
  The score of a candidate, for those that qualify.
\<close>

definition spec_candidate_score :: "'n platform \<Rightarrow> string \<Rightarrow> char \<Rightarrow> 'n option" where
  "spec_candidate_score P text d =
     (if qualifies text d then Some (spec_score P (parseCSV text d)) else None)"

text \<open>
  What the comparison \<^verbatim>\<open>score > bestScore\<close> is assumed to be on the scores that occur:
  every score is above negative infinity, and \<^verbatim>\<open>>\<close> is irreflexive, transitive and
  negatively transitive on them, as it is on numbers that are not NaN.
\<close>

definition ordered_scores :: "'n platform \<Rightarrow> 'n list \<Rightarrow> bool" where
  "ordered_scores P ss \<longleftrightarrow>
     (\<forall>x \<in> set ss. num_gt P x (neg_infinity P) \<and> \<not> num_gt P x x)
     \<and> (\<forall>x \<in> set ss. \<forall>y \<in> set ss. \<forall>z \<in> set ss.
           (num_gt P x y \<and> num_gt P y z \<longrightarrow> num_gt P x z)
           \<and> (num_gt P x z \<longrightarrow> num_gt P x y \<or> num_gt P y z))"

text \<open>
  The first-seen candidate with the strictly highest score: \<open>b\<close> is one of the candidates
  \<open>ds\<close> with score \<open>s\<close>, no candidate has a score above \<open>s\<close>, and every candidate
  before \<open>b\<close> that has a score has one strictly below \<open>s\<close>.
\<close>

definition first_best ::
  "'n platform \<Rightarrow> (char \<Rightarrow> 'n option) \<Rightarrow> char list \<Rightarrow> char \<Rightarrow> 'n \<Rightarrow> bool" where
  "first_best P cs ds b s \<longleftrightarrow>
     b \<in> set ds \<and> cs b = Some s
     \<and> (\<forall>d \<in> set ds. \<forall>s'. cs d = Some s' \<longrightarrow> \<not> num_gt P s' s)
     \<and> (\<forall>d \<in> set (takeWhile (\<lambda>d. d \<noteq> b) ds). \<forall>s'. cs d = Some s' \<longrightarrow> num_gt P s s')"

text \<open>
  A sample of 23 lines: a header \<^verbatim>\<open>a,b;c\<close>, a row \<^verbatim>\<open>1;2\<close>, 18 empty lines and
  three rows \<^verbatim>\<open>1,2\<close>; and its first 20 lines.
\<close>

definition long_sample :: string where
  "long_sample = ''a,b;c'' @ [LF] @ ''1;2'' @ replicate 19 LF @ ''1,2'' @ [LF] @ ''1,2'' @ [LF] @ ''1,2''"

definition long_sample_head :: string where
  "long_sample_head = ''a,b;c'' @ [LF] @ ''1;2'' @ replicate 18 LF"

section \<open>Shapes of value trees\<close>

text \<open>
  The trees the properties below speak of. \<^term>\<open>plain_keys v\<close>: in every object of \<open>v\<close>
  the keys are distinct, as in every object JavaScript builds, and none of them is
  \<^verbatim>\<open>__proto__\<close>. \<^term>\<open>av_free v\<close>: no object in \<open>v\<close>, \<open>v\<close> included, is
  AttributeValue-shaped. \<^term>\<open>no_truthy_M P v\<close>: no object in \<open>v\<close> has a property
  \<^verbatim>\<open>M\<close> with a truthy value. \<^term>\<open>no_numeric_strings v\<close>: no string in \<open>v\<close> has the
  shape of a number.
\<close>

fun plain_keys :: "'n jsval \<Rightarrow> bool" where
  "plain_keys (Arr xs) = list_all plain_keys xs"
| "plain_keys (Obj kvs) =
    (distinct (map fst kvs) \<and> ''__proto__'' \<notin> set (map fst kvs)
     \<and> list_all (\<lambda>(k, v). plain_keys v) kvs)"
| "plain_keys v = True"

fun av_free :: "'n jsval \<Rightarrow> bool" where
  "av_free (Arr xs) = list_all av_free xs"
| "av_free (Obj kvs) = (\<not> isAttributeValue (Obj kvs) \<and> list_all (\<lambda>(k, v). av_free v) kvs)"
| "av_free v = True"

fun no_truthy_M :: "'n platform \<Rightarrow> 'n jsval \<Rightarrow> bool" where
  "no_truthy_M P (Arr xs) = list_all (no_truthy_M P) xs"
| "no_truthy_M P (Obj kvs) =
    ((case map_of kvs ''M'' of Some m \<Rightarrow> \<not> truthy P m | None \<Rightarrow> True)
     \<and> list_all (\<lambda>(k, v). no_truthy_M P v) kvs)"
| "no_truthy_M P v = True"

fun no_numeric_strings :: "'n jsval \<Rightarrow> bool" where
  "no_numeric_strings (Arr xs) = list_all no_numeric_strings xs"
| "no_numeric_strings (Obj kvs) = list_all (\<lambda>(k, v). no_numeric_strings v) kvs"
| "no_numeric_strings (Str s) = (\<not> regex_test numeric_regex (trim s))"
| "no_numeric_strings v = True"

section \<open>A platform with exact arithmetic\<close>

text \<open>
  An instance of the platform on which the definitions can be run: numbers are
  rationals computed exactly, with a NaN and a negative infinity beside them. Its
  \<^verbatim>\<open>Number\<close> reads the decimal literals that \<^const>\<open>numeric_regex\<close> accepts and takes
  every other non-blank text for NaN; its \<^verbatim>\<open>JSON.parse\<close> knows the documents of
  a short table and rejects every other text.
\<close>

datatype xnum = XNaN | XNegInf | XFin rat

definition digits_value :: "string \<Rightarrow> nat" where
  "digits_value ds = foldl (\<lambda>a c. 10 * a + (of_char c - 48)) 0 ds"

definition exponent_value :: "string \<Rightarrow> int" where
  "exponent_value s =
    (case s of
       [] \<Rightarrow> 0
     | e # r \<Rightarrow>
         (case r of
            [] \<Rightarrow> 0
          | g # ds \<Rightarrow>
              if g = CHR ''-'' then - int (digits_value ds)
              else if g = CHR ''+'' then int (digits_value ds)
              else int (digits_value r)))"

definition unsigned_decimal_value :: "string \<Rightarrow> rat" where
  "unsigned_decimal_value s =
    (let ip = takeWhile is_digit s;
         s1 = dropWhile is_digit s;
         fp = (case s1 of c # r \<Rightarrow> if c = CHR ''.'' then takeWhile is_digit r else [] | [] \<Rightarrow> []);
         s2 = (case s1 of c # r \<Rightarrow> if c = CHR ''.'' then dropWhile is_digit r else s1 | [] \<Rightarrow> []);
         e = exponent_value s2;
         m = of_nat (digits_value (ip @ fp)) / 10 ^ length fp
     in if 0 \<le> e then m * 10 ^ nat e else m / 10 ^ nat (- e))"

definition decimal_value :: "string \<Rightarrow> rat" where
  "decimal_value s =
    (case s of
       [] \<Rightarrow> 0
     | c # r \<Rightarrow> if c = CHR ''-'' then - unsigned_decimal_value r else unsigned_decimal_value s)"

definition exact_number :: "string \<Rightarrow> xnum" where
  "exact_number s =
    (let t = trim s in
     if t = [] then XFin 0
     else if regex_test numeric_regex t then XFin (decimal_value t)
     else XNaN)"

definition show_int :: "int \<Rightarrow> string" where
  "show_int i = (if i < 0 then ''-'' @ show_nat (nat (- i)) else show_nat (nat i))"

definition exact_string :: "xnum \<Rightarrow> string" where
  "exact_string x =
    (case x of
       XNaN \<Rightarrow> ''NaN''
     | XNegInf \<Rightarrow> ''-Infinity''
     | XFin q \<Rightarrow>
         (case quotient_of q of
            (a, b) \<Rightarrow> if b = 1 then show_int a else show_int a @ ''/'' @ show_int b))"

fun exact_op :: "(rat \<Rightarrow> rat \<Rightarrow> rat) \<Rightarrow> xnum \<Rightarrow> xnum \<Rightarrow> xnum" where
  "exact_op f (XFin a) (XFin b) = XFin (f a b)"
| "exact_op f x y = XNaN"

fun exact_div :: "xnum \<Rightarrow> xnum \<Rightarrow> xnum" where
  "exact_div (XFin a) (XFin b) = (if b = 0 then XNaN else XFin (a / b))"
| "exact_div x y = XNaN"

fun exact_pow :: "xnum \<Rightarrow> xnum \<Rightarrow> xnum" where
  "exact_pow (XFin a) (XFin b) =
    (if 0 \<le> b \<and> snd (quotient_of b) = 1 then XFin (a ^ nat (fst (quotient_of b))) else XNaN)"
| "exact_pow x y = XNaN"

fun exact_gt :: "xnum \<Rightarrow> xnum \<Rightarrow> bool" where
  "exact_gt (XFin a) (XFin b) = (b < a)"
| "exact_gt (XFin a) XNegInf = True"
| "exact_gt x y = False"

definition known_documents :: "(string \<times> xnum jsval) list" where
  "known_documents =
    [(''{'' @ [DQ] @ ''zip'' @ [DQ] @ '':{'' @ [DQ] @ ''N'' @ [DQ] @ '':'' @ [DQ] @ ''1''
        @ [DQ] @ ''}}'',
      Obj [(''zip'', Obj [(''N'', Str ''1'')])]),
     (''[1,2,3]'', Arr [Num (XFin 1), Num (XFin 2), Num (XFin 3)])]"

definition exact_platform :: "xnum platform" where
  "exact_platform =
    \<lparr>string_to_number = exact_number,
     number_to_string = exact_string,
     number_of_nat = (\<lambda>n. XFin (of_nat n)),
     number_is_finite = (\<lambda>x. case x of XFin _ \<Rightarrow> True | _ \<Rightarrow> False),
     number_is_falsy = (\<lambda>x. case x of XNaN \<Rightarrow> True | XFin q \<Rightarrow> q = 0 | _ \<Rightarrow> False),
     num_add = exact_op (+),
     num_sub = exact_op (-),
     num_mul = exact_op (*),
     num_div = exact_div,
     num_pow = exact_pow,
     num_gt = exact_gt,
     neg_infinity = XNegInf,
     json_parse = map_of known_documents\<rparr>"

section \<open>Properties of the CSV parser\<close>

lemma scan_in_quotes:
  "inQuotes s \<Longrightarrow> DQ \<notin> set body \<Longrightarrow> scan d body s = s\<lparr>field := field s @ body\<rparr>"
proof (induction body arbitrary: s)
  case Nil
  then show ?case by simp
next
  case (Cons c body)
  then show ?case by (cases body) auto
qed

text \<open>
  The scanner looks one character ahead only for a quote, so a text splits into two runs
  wherever the second part does not begin with a quote.
\<close>

lemma scan_append:
  "ys = [] \<or> hd ys \<noteq> DQ \<Longrightarrow> scan d (xs @ ys) s = scan d ys (scan d xs s)"
proof (induction d xs s rule: scan.induct)
  case (1 d s)
  then show ?case by simp
next
  case (2 d c rest s)
  then show ?case
    by (cases rest; cases ys) (auto simp del: scan.simps(2) simp add: scan.simps(2)[of _ c] split: if_splits)
qed

lemma scan_rows_nonempty:
  "[] \<notin> set (rows s) \<Longrightarrow> [] \<notin> set (rows (scan d input s))"
proof (induction d input s rule: scan.induct)
  case (1 d s)
  then show ?case by simp
next
  case (2 d c rest s)
  then show ?case
    by (cases rest) (auto simp del: scan.simps(2) simp add: scan.simps(2)[of _ c] split: if_splits)
qed


text \<open>
  C6. \<^const>\<open>parseCSV\<close> is a total function from texts and delimiters to rows: its scan
  reads a text that gets shorter at every step, and no step has a failing branch. For
  every text and delimiter the result is a sequence of rows of at least one field each.
  Malformed quoting is no exception. When a quoted span is still open after a prefix
  \<open>pre\<close> and the rest \<open>body\<close> of the text has no quote to close it, the whole of
  \<open>body\<close>, delimiters and line breaks included, is appended to the field in progress,
  and that field and its row are flushed at the end of the input.
\<close>

theorem parseCSV_unterminated_quote:
  "(\<forall>r \<in> set (parseCSV text d). r \<noteq> [])
   \<and> (inQuotes (scan d pre scanner0) \<and> DQ \<notin> set body \<longrightarrow>
        parseCSV (pre @ body) d =
          rows (scan d pre scanner0) @
            [row (scan d pre scanner0) @ [field (scan d pre scanner0) @ body]])"
proof (intro conjI impI)
  have "[] \<notin> set (rows (scan d text scanner0))"
    by (rule scan_rows_nonempty) (simp add: scanner0_def)
  then have "[] \<notin> set (parseCSV text d)"
    by (simp add: parseCSV_def flush_def)
  then show "\<forall>r \<in> set (parseCSV text d). r \<noteq> []"
    by blast
next
  assume a: "inQuotes (scan d pre scanner0) \<and> DQ \<notin> set body"
  have "ys = [] \<or> hd ys \<noteq> DQ" if "DQ \<notin> set ys" for ys
    using that by (cases ys) auto
  then have "scan d (pre @ body) scanner0 = scan d body (scan d pre scanner0)"
    using a scan_append by blast
  also have "\<dots> = (scan d pre scanner0)\<lparr>field := field (scan d pre scanner0) @ body\<rparr>"
    using a by (intro scan_in_quotes) simp_all
  finally show "parseCSV (pre @ body) d =
          rows (scan d pre scanner0) @
            [row (scan d pre scanner0) @ [field (scan d pre scanner0) @ body]]"
    using a by (simp add: parseCSV_def flush_def)
qed

theorem parseCSV_unterminated_quote_witness:
  "inQuotes (scan (CHR '','') (''a,'' @ [DQ] @ ''b'') scanner0)
   \<and> DQ \<notin> set ('',c'' @ [LF] @ ''d'')
   \<and> parseCSV ((''a,'' @ [DQ] @ ''b'') @ ('',c'' @ [LF] @ ''d'')) (CHR '','')
       = [[''a'', ''b,c'' @ [LF] @ ''d'']]"
proof -
  have q: "inQuotes (scan (CHR '','') (''a,'' @ [DQ] @ ''b'') scanner0)
             \<and> DQ \<notin> set ('',c'' @ [LF] @ ''d'')"
    by (simp add: scanner0_def DQ_def LF_def CR_def)
  from parseCSV_unterminated_quote
    [where d = "CHR '',''" and pre = "''a,'' @ [DQ] @ ''b''" and body = "'',c'' @ [LF] @ ''d''"]
  have "inQuotes (scan (CHR '','') (''a,'' @ [DQ] @ ''b'') scanner0)
          \<and> DQ \<notin> set ('',c'' @ [LF] @ ''d'') \<longrightarrow>
        parseCSV ((''a,'' @ [DQ] @ ''b'') @ ('',c'' @ [LF] @ ''d'')) (CHR '','') =
          rows (scan (CHR '','') (''a,'' @ [DQ] @ ''b'') scanner0) @
            [row (scan (CHR '','') (''a,'' @ [DQ] @ ''b'') scanner0)
               @ [field (scan (CHR '','') (''a,'' @ [DQ] @ ''b'') scanner0)
                    @ ('',c'' @ [LF] @ ''d'')]]"
    by (rule conjunct2)
  with q show ?thesis
    by (simp add: scanner0_def DQ_def LF_def CR_def)
qed

text \<open>
  C9, as the example is written. Read as a string literal, the text of the example is
  \<^verbatim>\<open>id,name\<close>, a line feed, and \<^verbatim>\<open>1,""Alice, A."\<close>: the two quotes before \<^verbatim>\<open>Alice\<close>
  open and close an empty quoted span, the comma after \<^verbatim>\<open>Alice\<close> is then a delimiter, and
  field 2 of row 2 is \<^verbatim>\<open>Alice\<close>. Read character by character, quotes at both ends
  included, the text is one quoted span and there is no row 2 at all.
\<close>

theorem quote_escaping_example_counterexample:
  "parseCSV (''id,name'' @ [LF] @ ''1,'' @ [DQ, DQ] @ ''Alice, A.'' @ [DQ]) (CHR '','')
     = [[''id'', ''name''], [''1'', ''Alice'', '' A.'']]
   \<and> cell_at (parseCSV (''id,name'' @ [LF] @ ''1,'' @ [DQ, DQ] @ ''Alice, A.'' @ [DQ])
               (CHR '','')) 1 1 \<noteq> Some ''Alice, A.''
   \<and> cell_at (parseCSV ([DQ] @ ''id,name'' @ [LF] @ ''1,'' @ [DQ, DQ] @ ''Alice, A.'' @ [DQ, DQ])
               (CHR '','')) 1 1 \<noteq> Some ''Alice, A.''"
  by (simp add: parseCSV_def flush_def scanner0_def cell_at_def DQ_def LF_def CR_def)

lemma scan_doubled_quote:
  "inQuotes s \<Longrightarrow> scan d (DQ # DQ # rest) s = scan d rest (s\<lparr>field := field s @ [DQ]\<rparr>)"
  by simp

lemma scan_escaped:
  "inQuotes s \<Longrightarrow> rest = [] \<or> hd rest \<noteq> DQ \<Longrightarrow>
     scan d (escape_quotes content @ DQ # rest) s
       = scan d rest (s\<lparr>field := field s @ content, inQuotes := False\<rparr>)"
proof (induction content arbitrary: s)
  case Nil
  then show ?case by (cases rest) (auto simp: escape_quotes_def)
next
  case (Cons c content)
  have step: "scan d (escape_quotes (c # content) @ DQ # rest) s
          = scan d (escape_quotes content @ DQ # rest) (s\<lparr>field := field s @ [c]\<rparr>)"
  proof (cases "c = DQ")
    case True
    then show ?thesis using Cons.prems(1) by (simp add: escape_quotes_def)
  next
    case False
    obtain n tl' where "escape_quotes content @ DQ # rest = n # tl'"
      by (cases "escape_quotes content @ DQ # rest") auto
    then show ?thesis using False Cons.prems(1) by (simp add: escape_quotes_def)
  qed
  have "inQuotes (s\<lparr>field := field s @ [c]\<rparr>)" using Cons.prems(1) by simp
  from Cons.IH [OF this Cons.prems(2)] step show ?case by simp
qed

lemma scan_quoted:
  assumes "\<not> inQuotes s" and "rest = [] \<or> hd rest \<noteq> DQ"
  shows "scan d (quoted content @ rest) s = scan d rest (s\<lparr>field := field s @ content\<rparr>)"
proof -
  have "scan d (quoted content @ rest) s
          = scan d (escape_quotes content @ DQ # rest) (s\<lparr>inQuotes := True\<rparr>)"
    using assms(1) by (simp add: quoted_def)
  also have "\<dots> = scan d rest (s\<lparr>inQuotes := True\<rparr>
                       \<lparr>field := field (s\<lparr>inQuotes := True\<rparr>) @ content, inQuotes := False\<rparr>)"
    using assms(2) by (intro scan_escaped) simp_all
  also have "s\<lparr>inQuotes := True\<rparr>
               \<lparr>field := field (s\<lparr>inQuotes := True\<rparr>) @ content, inQuotes := False\<rparr>
             = s\<lparr>field := field s @ content\<rparr>"
    using assms(1) by simp
  finally show ?thesis .
qed

lemma scan_id_name_prefix:
  "scan (CHR '','') (''id,name'' @ [LF] @ ''1,'' @ rest) scanner0
     = scan (CHR '','') rest \<lparr>rows = [[''id'', ''name'']], field = [], row = [''1''], inQuotes = False\<rparr>"
  by (simp add: scanner0_def DQ_def LF_def CR_def)

text \<open>
  C9, amended. With one pair of quotes around the field, the text \<^verbatim>\<open>id,name\<close>, line feed,
  \<^verbatim>\<open>1,"Alice, A."\<close> has \<^verbatim>\<open>Alice, A.\<close> as field 2 of row 2, the comma inside the quoted
  span preserved. Inside a quoted span a doubled quote adds one literal quote to the
  field and both characters are consumed, the span staying open. So a field in quoted
  form that is not directly followed by a further quote is read back as exactly its
  content, whatever the content is: delimiters and line breaks in it are preserved and
  every doubled quote collapses to a single one. In particular the text \<^verbatim>\<open>id,name\<close>,
  line feed, \<^verbatim>\<open>1,\<close> and the quoted form of any content has that content as field 2
  of row 2.
\<close>

theorem quote_escaping_quoted_field:
  "cell_at (parseCSV (''id,name'' @ [LF] @ ''1,'' @ [DQ] @ ''Alice, A.'' @ [DQ]) (CHR '',''))
     1 1 = Some ''Alice, A.''
   \<and> (inQuotes s \<longrightarrow>
        scan d (DQ # DQ # rest) s = scan d rest (s\<lparr>field := field s @ [DQ]\<rparr>))
   \<and> (\<not> inQuotes s \<and> (rest = [] \<or> hd rest \<noteq> DQ) \<longrightarrow>
        scan d (quoted content @ rest) s = scan d rest (s\<lparr>field := field s @ content\<rparr>))
   \<and> parseCSV (''id,name'' @ [LF] @ ''1,'' @ quoted content) (CHR '','')
       = [[''id'', ''name''], [''1'', content]]"
proof (intro conjI impI)
  show "cell_at (parseCSV (''id,name'' @ [LF] @ ''1,'' @ [DQ] @ ''Alice, A.'' @ [DQ]) (CHR '',''))
     1 1 = Some ''Alice, A.''"
    by (simp add: parseCSV_def flush_def scanner0_def cell_at_def DQ_def LF_def CR_def)
  show "scan d (DQ # DQ # rest) s = scan d rest (s\<lparr>field := field s @ [DQ]\<rparr>)" if "inQuotes s"
    using that by (rule scan_doubled_quote)
  show "scan d (quoted content @ rest) s = scan d rest (s\<lparr>field := field s @ content\<rparr>)"
    if "\<not> inQuotes s \<and> (rest = [] \<or> hd rest \<noteq> DQ)"
  proof (rule scan_quoted)
    from that show "\<not> inQuotes s" ..
    from that show "rest = [] \<or> hd rest \<noteq> DQ" ..
  qed
  let ?s = "\<lparr>rows = [[''id'', ''name'']], field = [], row = [''1''], inQuotes = False\<rparr>"
  have "scan (CHR '','') (''id,name'' @ [LF] @ ''1,'' @ quoted content) scanner0
          = scan (CHR '','') (quoted content @ []) ?s"
    by (simp only: scan_id_name_prefix append_Nil2)
  also have "\<dots> = scan (CHR '','') [] (?s\<lparr>field := field ?s @ content\<rparr>)"
    by (rule scan_quoted) simp_all
  finally have e: "scan (CHR '','') (''id,name'' @ [LF] @ ''1,'' @ quoted content) scanner0
          = ?s\<lparr>field := field ?s @ content\<rparr>"
    by (simp only: scan.simps(1))
  show "parseCSV (''id,name'' @ [LF] @ ''1,'' @ quoted content) (CHR '','')
       = [[''id'', ''name''], [''1'', content]]"
    unfolding parseCSV_def e by (simp add: flush_def)
qed

theorem quote_escaping_quoted_field_witness:
  "inQuotes (scanner0\<lparr>field := ''a'', inQuotes := True\<rparr>)
   \<and> scan (CHR '','') (DQ # DQ # '',b'' @ [DQ]) (scanner0\<lparr>field := ''a'', inQuotes := True\<rparr>)
       = \<lparr>rows = [], field = ''a'' @ [DQ] @ '',b'', row = [], inQuotes = False\<rparr>
   \<and> (\<not> inQuotes scanner0 \<and> ('',x'' = [] \<or> hd '',x'' \<noteq> DQ))
   \<and> quoted (''Alice '' @ [DQ] @ ''A'' @ [DQ] @ '', B'')
       = [DQ] @ ''Alice '' @ [DQ, DQ] @ ''A'' @ [DQ, DQ] @ '', B'' @ [DQ]
   \<and> scan (CHR '','') (quoted (''Alice '' @ [DQ] @ ''A'' @ [DQ] @ '', B'') @ '',x'') scanner0
       = \<lparr>rows = [], field = ''x'', row = [''Alice '' @ [DQ] @ ''A'' @ [DQ] @ '', B''],
          inQuotes = False\<rparr>
   \<and> parseCSV (''id,name'' @ [LF] @ ''1,'' @ quoted (''Alice '' @ [DQ] @ ''A'' @ [DQ] @ '', B''))
        (CHR '','')
       = [[''id'', ''name''], [''1'', ''Alice '' @ [DQ] @ ''A'' @ [DQ] @ '', B'']]"
proof -
  let ?c = "''Alice '' @ [DQ] @ ''A'' @ [DQ] @ '', B''"
  let ?s = "scanner0\<lparr>field := ''a'', inQuotes := True\<rparr>"
  note T1 = quote_escaping_quoted_field
    [where s = ?s and d = "CHR '',''" and rest = "'',b'' @ [DQ]" and content = ?c]
  note T2 = quote_escaping_quoted_field
    [where s = scanner0 and d = "CHR '',''" and rest = "'',x''" and content = ?c]
  have q: "quoted ?c = [DQ] @ ''Alice '' @ [DQ, DQ] @ ''A'' @ [DQ, DQ] @ '', B'' @ [DQ]"
    by (simp add: quoted_def escape_quotes_def DQ_def)
  have h1: "inQuotes ?s" by (simp add: scanner0_def)
  have h2: "\<not> inQuotes scanner0 \<and> ('',x'' = [] \<or> hd '',x'' \<noteq> DQ)"
    by (simp add: scanner0_def DQ_def)
  have r1: "scan (CHR '','') ('',b'' @ [DQ]) (?s\<lparr>field := field ?s @ [DQ]\<rparr>)
              = \<lparr>rows = [], field = ''a'' @ [DQ] @ '',b'', row = [], inQuotes = False\<rparr>"
    by (simp add: scanner0_def DQ_def)
  have r2: "scan (CHR '','') '',x'' (scanner0\<lparr>field := field scanner0 @ ?c\<rparr>)
              = \<lparr>rows = [], field = ''x'', row = [?c], inQuotes = False\<rparr>"
    by (simp add: scanner0_def DQ_def LF_def CR_def)
  from T1 h1 have "scan (CHR '','') (DQ # DQ # '',b'' @ [DQ]) ?s
                     = scan (CHR '','') ('',b'' @ [DQ]) (?s\<lparr>field := field ?s @ [DQ]\<rparr>)"
    by blast
  then have e1: "scan (CHR '','') (DQ # DQ # '',b'' @ [DQ]) ?s
       = \<lparr>rows = [], field = ''a'' @ [DQ] @ '',b'', row = [], inQuotes = False\<rparr>"
    by (simp only: r1)
  from T2 h2 have "scan (CHR '','') (quoted ?c @ '',x'') scanner0
                     = scan (CHR '','') '',x'' (scanner0\<lparr>field := field scanner0 @ ?c\<rparr>)"
    by blast
  then have e2: "scan (CHR '','') (quoted ?c @ '',x'') scanner0
       = \<lparr>rows = [], field = ''x'', row = [?c], inQuotes = False\<rparr>"
    by (simp only: r2)
  from T2 have e3: "parseCSV (''id,name'' @ [LF] @ ''1,'' @ quoted ?c) (CHR '','')
       = [[''id'', ''name''], [''1'', ?c]]"
    by blast
  from h1 e1 h2 q e2 e3 show ?thesis
    by blast
qed

section \<open>Properties of the unmarshaller\<close>

lemma update_fresh: "k \<notin> fst ` set al \<Longrightarrow> AList.update k v al = al @ [(k, v)]"
  by (induction al) auto

lemma foldl_obj_set_fresh:
  "distinct (map fst (acc @ es)) \<Longrightarrow> ''__proto__'' \<notin> fst ` set es \<Longrightarrow>
     foldl (\<lambda>out (k, v). obj_set out k v) acc es = acc @ es"
proof (induction es arbitrary: acc)
  case Nil
  then show ?case by simp
next
  case (Cons e es)
  obtain k v where e: "e = (k, v)" by (cases e)
  from Cons.prems have fresh: "k \<notin> fst ` set acc" and k: "k \<noteq> ''__proto__''"
    by (auto simp: e)
  have "foldl (\<lambda>out (k, v). obj_set out k v) (acc @ [(k, v)]) es = (acc @ [(k, v)]) @ es"
    using Cons.prems by (intro Cons.IH) (auto simp: e)
  then show ?case
    using fresh k by (simp add: e obj_set_def update_fresh)
qed

lemma from_entries_plain:
  "distinct (map fst es) \<Longrightarrow> ''__proto__'' \<notin> set (map fst es) \<Longrightarrow> from_entries es = es"
  using foldl_obj_set_fresh [of "[]" es] by (simp add: from_entries_def)

lemma mapM_Some_id: "(\<And>x. x \<in> set xs \<Longrightarrow> f x = Some x) \<Longrightarrow> mapM f xs = Some xs"
  by (induction xs) auto

lemma mapM_length: "mapM f xs = Some ys \<Longrightarrow> length ys = length xs"
  by (induction xs arbitrary: ys) (auto split: Option.bind_splits)

lemma mapM_values_keys:
  "mapM (\<lambda>(k, v). map_option (Pair k) (g v)) kvs = Some es \<Longrightarrow> map fst es = map fst kvs"
  by (induction kvs arbitrary: es) (auto split: Option.bind_splits)

lemma mapM_Some_iff:
  "mapM f xs = Some ys \<longleftrightarrow> list_all2 (\<lambda>x y. f x = Some y) xs ys"
proof (induction xs arbitrary: ys)
  case Nil
  then show ?case by auto
next
  case (Cons x xs)
  show ?case
    by (auto simp: list_all2_Cons1 Cons.IH [symmetric] split: Option.bind_splits)
qed

lemma isAttributeValue_length: "isAttributeValue (Obj kvs) \<Longrightarrow> length kvs = 1"
  by (auto simp: isAttributeValue_def split: list.splits)

lemma isAttributeValue_M: "isAttributeValue (Obj [(''M'', m)])"
  by (simp add: isAttributeValue_def AV_KEYS_def)

lemma unmarshallDeep_single_M: "unmarshallDeep P (Obj [(''M'', m)]) = unmarshallMap P m"
  by (simp add: unmarshallDeep.simps [of P "Obj [(''M'', m)]"] isAttributeValue_M
      unmarshallAV.simps [of P "''M''"])

text \<open>
  C10. An object with two or more keys, one of them \<^verbatim>\<open>M\<close> with a truthy value, is
  unmarshalled as the attribute map in \<^verbatim>\<open>M\<close> alone: the result is that of
  \<^verbatim>\<open>unmarshallMap\<close> on the payload, the same as for the object \<^verbatim>\<open>{M: m}\<close>, whatever the
  other properties are.
\<close>

theorem unmarshallDeep_truthy_M:
  assumes "2 \<le> length kvs" and "map_of kvs ''M'' = Some m" and "truthy P m"
  shows "unmarshallDeep P (Obj kvs) = unmarshallMap P m
         \<and> unmarshallDeep P (Obj kvs) = unmarshallDeep P (Obj [(''M'', m)])"
proof -
  have "\<not> isAttributeValue (Obj kvs)"
    using assms(1) isAttributeValue_length [of kvs] by auto
  then have "unmarshallDeep P (Obj kvs) = unmarshallAV P ''M'' m"
    using assms(2,3) by (simp add: unmarshallDeep.simps [of P "Obj kvs"] isAttributeValue_M)
  then show ?thesis
    by (simp add: unmarshallAV.simps [of P "''M''"] unmarshallDeep_single_M)
qed

theorem unmarshallDeep_truthy_M_witness:
  "2 \<le> length [(''M'', Obj [(''a'', Obj [(''S'', Str ''x'')])]), (''x'', Num (XFin 1))]
   \<and> map_of [(''M'', Obj [(''a'', Obj [(''S'', Str ''x'')])]), (''x'', Num (XFin 1))] ''M''
       = Some (Obj [(''a'', Obj [(''S'', Str ''x'')])])
   \<and> truthy exact_platform (Obj [(''a'', Obj [(''S'', Str ''x'')])])
   \<and> unmarshallDeep exact_platform
        (Obj [(''M'', Obj [(''a'', Obj [(''S'', Str ''x'')])]), (''x'', Num (XFin 1))])
       = Some (Obj [(''a'', Str ''x'')])"
proof -
  let ?m = "Obj [(''a'', Obj [(''S'', Str ''x'')])] :: xnum jsval"
  let ?kvs = "[(''M'', ?m), (''x'', Num (XFin 1))]"
  have h1: "2 \<le> length ?kvs" by simp
  have h2: "map_of ?kvs ''M'' = Some ?m" by simp
  have h3: "truthy exact_platform ?m" by (simp add: truthy_def)
  have e: "unmarshallMap exact_platform ?m = Some (Obj [(''a'', Str ''x'')])" by code_simp
  show ?thesis
    using unmarshallDeep_truthy_M [OF h1 h2 h3] h1 h2 h3 e by simp
qed

lemma isAttributeValue_unmarshallDeep:
  "isAttributeValue v \<Longrightarrow> unmarshallDeep P v = unmarshall_as_AV P v"
  by (simp add: unmarshallDeep.simps [of P v] unmarshall_as_AV_def)


lemma unmarshallDeep_all_AVs:
  assumes "kvs \<noteq> []" and "list_all isAttributeValue (map snd kvs)"
    and "\<not> isAttributeValue (Obj kvs)" and "map_of kvs ''M'' = None"
  shows "unmarshallDeep P (Obj kvs)
          = map_option (Obj \<circ> from_entries)
              (mapM (\<lambda>(k, v). map_option (Pair k) (unmarshall_as_AV P v)) kvs)"
proof -
  have "maybeMapOfAVs (Obj kvs)"
    using assms(1,2) by (simp add: maybeMapOfAVs_def entries_def)
  then have "unmarshallDeep P (Obj kvs) = unmarshallMap P (Obj kvs)"
    using assms(3,4) by (simp add: unmarshallDeep.simps [of P "Obj kvs"])
  moreover have "mapM (\<lambda>(k, v). map_option (Pair k) (unmarshallDeep P v)) kvs
          = mapM (\<lambda>(k, v). map_option (Pair k) (unmarshall_as_AV P v)) kvs"
    using assms(2) by (intro mapM_cong) (auto simp: list_all_iff isAttributeValue_unmarshallDeep)
  ultimately show ?thesis
    by (simp add: unmarshallMap.simps [of P "Obj kvs"] entries_def)
qed



text \<open>
  C1, as stated, fails on an object of two keys, one of them \<^verbatim>\<open>M\<close>: \<^verbatim>\<open>{M: {a: null}, x: null}\<close>
  is not an AttributeValue, \<^verbatim>\<open>M\<close> is not its single key, its values are not
  AttributeValues, and yet the result \<^verbatim>\<open>{a: null}\<close> has neither of its keys.
\<close>

theorem generic_object_counterexample:
  "\<not> isAttributeValue (Obj [(''M'', Obj [(''a'', Null)]), (''x'', Null :: xnum jsval)])
   \<and> map fst [(''M'', Obj [(''a'', Null)]), (''x'', Null :: xnum jsval)] \<noteq> [''M'']
   \<and> \<not> maybeMapOfAVs (Obj [(''M'', Obj [(''a'', Null)]), (''x'', Null :: xnum jsval)])
   \<and> unmarshallDeep exact_platform (Obj [(''M'', Obj [(''a'', Null)]), (''x'', Null)])
       = Some (Obj [(''a'', Null)])"
  by code_simp

lemma unmarshallDeep_generic:
  assumes "\<not> isAttributeValue (Obj kvs)"
    and "case map_of kvs ''M'' of Some m \<Rightarrow> \<not> truthy P m | None \<Rightarrow> True"
    and "\<not> maybeMapOfAVs (Obj kvs)"
  shows "unmarshallDeep P (Obj kvs)
          = map_option (Obj \<circ> from_entries)
              (mapM (\<lambda>(k, v). map_option (Pair k) (unmarshallDeep P v)) kvs)"
  using assms by (simp add: unmarshallDeep.simps [of P "Obj kvs"] split: option.splits)

text \<open>
  C1, amended. An object with distinct keys, none of them \<^verbatim>\<open>__proto__\<close>, that is not an
  AttributeValue, has no property \<^verbatim>\<open>M\<close> with a truthy value and is not a non-empty map of
  AttributeValues, is unmarshalled value by value: when the unmarshalling of its values
  succeeds, the result is an object with exactly the same keys in the same order, each
  value being the unmarshalling of the value under that key; it fails only when the
  unmarshalling of a value does.
\<close>

theorem unmarshallDeep_generic_object:
  assumes "\<not> isAttributeValue (Obj kvs)"
    and "case map_of kvs ''M'' of Some m \<Rightarrow> \<not> truthy P m | None \<Rightarrow> True"
    and "\<not> maybeMapOfAVs (Obj kvs)"
    and "distinct (map fst kvs)" and "''__proto__'' \<notin> set (map fst kvs)"
  shows "unmarshallDeep P (Obj kvs)
           = map_option Obj (mapM (\<lambda>(k, v). map_option (Pair k) (unmarshallDeep P v)) kvs)
         \<and> (\<forall>r. unmarshallDeep P (Obj kvs) = Some r \<longrightarrow>
              (\<exists>es. r = Obj es \<and> map fst es = map fst kvs
                 \<and> list_all2 (\<lambda>kv e. unmarshallDeep P (snd kv) = Some (snd e)) kvs es))"
proof -
  let ?each = "mapM (\<lambda>(k, v). map_option (Pair k) (unmarshallDeep P v)) kvs"
  have eq: "unmarshallDeep P (Obj kvs) = map_option Obj ?each"
  proof (cases ?each)
    case None
    then show ?thesis using assms(1-3) by (simp add: unmarshallDeep_generic)
  next
    case (Some es)
    then have "map fst es = map fst kvs" by (rule mapM_values_keys)
    then have "from_entries es = es"
      using assms(4,5) by (simp add: from_entries_plain)
    then show ?thesis using assms(1-3) Some by (simp add: unmarshallDeep_generic)
  qed
  have "\<exists>es. r = Obj es \<and> map fst es = map fst kvs
          \<and> list_all2 (\<lambda>kv e. unmarshallDeep P (snd kv) = Some (snd e)) kvs es"
    if "unmarshallDeep P (Obj kvs) = Some r" for r
  proof -
    from that eq obtain es where es: "?each = Some es" and r: "r = Obj es"
      by auto
    from es have "list_all2 (\<lambda>kv e. (case kv of (k, v) \<Rightarrow> map_option (Pair k) (unmarshallDeep P v)) = Some e) kvs es"
      by (simp add: mapM_Some_iff)
    then have "list_all2 (\<lambda>kv e. unmarshallDeep P (snd kv) = Some (snd e)) kvs es"
      by (rule list_all2_mono) auto
    with r mapM_values_keys [OF es] show ?thesis by blast
  qed
  with eq show ?thesis by blast
qed

theorem unmarshallDeep_generic_object_witness:
  "\<not> isAttributeValue (Obj [(''a'', Obj [(''S'', Str ''x'')]), (''b'', Num (XFin 2))])
   \<and> (case map_of [(''a'', Obj [(''S'', Str ''x'')]), (''b'', Num (XFin 2))] ''M'' of
        Some m \<Rightarrow> \<not> truthy exact_platform m | None \<Rightarrow> True)
   \<and> \<not> maybeMapOfAVs (Obj [(''a'', Obj [(''S'', Str ''x'')]), (''b'', Num (XFin 2))])
   \<and> distinct (map fst [(''a'', Obj [(''S'', Str ''x'')]), (''b'', Num (XFin 2))])
   \<and> ''__proto__'' \<notin> set (map fst [(''a'', Obj [(''S'', Str ''x'')]), (''b'', Num (XFin 2))])
   \<and> unmarshallDeep exact_platform (Obj [(''a'', Obj [(''S'', Str ''x'')]), (''b'', Num (XFin 2))])
       = Some (Obj [(''a'', Str ''x''), (''b'', Num (XFin 2))])"
proof -
  let ?kvs = "[(''a'', Obj [(''S'', Str ''x'')]), (''b'', Num (XFin 2))]"
  have h1: "\<not> isAttributeValue (Obj ?kvs)" by (simp add: isAttributeValue_def)
  have h2: "case map_of ?kvs ''M'' of Some m \<Rightarrow> \<not> truthy exact_platform m | None \<Rightarrow> True"
    by simp
  have h3: "\<not> maybeMapOfAVs (Obj ?kvs)"
    by (simp add: maybeMapOfAVs_def entries_def isAttributeValue_def)
  have h4: "distinct (map fst ?kvs)" by simp
  have h5: "''__proto__'' \<notin> set (map fst ?kvs)" by simp
  have e: "map_option Obj
             (mapM (\<lambda>(k, v). map_option (Pair k) (unmarshallDeep exact_platform v)) ?kvs)
           = Some (Obj [(''a'', Str ''x''), (''b'', Num (XFin 2))])"
    by code_simp
  from unmarshallDeep_generic_object [OF h1 h2 h3 h4 h5] h1 h2 h3 h4 h5 e show ?thesis
    by simp
qed

section \<open>Idempotence\<close>

lemma update_subset: "set (AList.update k v al) \<subseteq> insert (k, v) (set al)"
  by (induction al) auto

lemma foldl_obj_set_invariant:
  "distinct (map fst acc) \<Longrightarrow> ''__proto__'' \<notin> fst ` set acc \<Longrightarrow>
     distinct (map fst (foldl (\<lambda>out (k, v). obj_set out k v) acc es))
     \<and> ''__proto__'' \<notin> fst ` set (foldl (\<lambda>out (k, v). obj_set out k v) acc es)
     \<and> set (foldl (\<lambda>out (k, v). obj_set out k v) acc es) \<subseteq> set acc \<union> set es"
proof (induction es arbitrary: acc)
  case Nil
  then show ?case by simp
next
  case (Cons e es)
  obtain k v where e: "e = (k, v)" by (cases e)
  let ?acc = "obj_set acc k v"
  have d: "distinct (map fst ?acc)"
    using Cons.prems(1) by (simp add: obj_set_def distinct_update)
  have p: "''__proto__'' \<notin> fst ` set ?acc"
    using Cons.prems(2) by (simp add: obj_set_def dom_update)
  have s: "set ?acc \<subseteq> set acc \<union> {(k, v)}"
    by (simp add: obj_set_def update_subset) blast
  from Cons.IH [OF d p] s show ?case
    by (auto simp: e)
qed

lemma from_entries_invariant:
  "distinct (map fst (from_entries es))"
  "''__proto__'' \<notin> set (map fst (from_entries es))"
  "set (from_entries es) \<subseteq> set es"
  using foldl_obj_set_invariant [of "[]" es] by (auto simp: from_entries_def)

lemma inferScalar_idem: "inferScalar P (inferScalar P v) = inferScalar P v"
  by (cases v) (auto simp: inferScalar_def Let_def)

lemma inferScalar_not_scalar:
  "inferScalar P (Arr xs) = Arr xs" "inferScalar P (Obj kvs) = Obj kvs"
  by (simp_all add: inferScalar_def)

lemma coerceDeep_scalar:
  "(\<And>xs. v \<noteq> Arr xs) \<Longrightarrow> (\<And>kvs. v \<noteq> Obj kvs) \<Longrightarrow>
     coerceDeep P (inferScalar P v) = inferScalar P v"
  by (cases v) (auto simp: inferScalar_def Let_def)

lemma coerceDeep_idem: "coerceDeep P (coerceDeep P v) = coerceDeep P v"
proof (induction P v rule: coerceDeep.induct)
  case (1 P xs)
  then show ?case by simp
next
  case (2 P kvs)
  let ?g = "\<lambda>(k, v). (k, coerceDeep P v)"
  let ?es = "from_entries (map ?g kvs)"
  have "?g e = e" if "e \<in> set ?es" for e
  proof -
    from that from_entries_invariant(3) have "e \<in> set (map ?g kvs)" by blast
    then obtain k v where kv: "(k, v) \<in> set kvs" and e: "e = (k, coerceDeep P v)"
      by auto
    with "2.IH" show ?thesis by simp
  qed
  then have "map ?g ?es = ?es" by (simp add: map_idI)
  then have "from_entries (map ?g ?es) = ?es"
    using from_entries_invariant(1,2) [of "map ?g kvs"] by (simp add: from_entries_plain)
  then show ?case by simp
qed (simp_all add: coerceDeep_scalar)

lemma av_free_not_AV: "av_free v \<Longrightarrow> \<not> isAttributeValue v"
  by (cases v) (auto simp: isAttributeValue_def)

lemma unmarshallDeep_fixed:
  "av_free v \<Longrightarrow> no_truthy_M P v \<Longrightarrow> plain_keys v \<Longrightarrow> unmarshallDeep P v = Some v"
proof (induction v)
  case (Arr xs)
  then have "mapM (unmarshallDeep P) xs = Some xs"
    by (intro mapM_Some_id) (auto simp: list_all_iff)
  then show ?case
    by (simp add: unmarshallDeep.simps [of P "Arr xs"] isAttributeValue_def)
next
  case (Obj kvs)
  have each: "mapM (\<lambda>(k, v). map_option (Pair k) (unmarshallDeep P v)) kvs = Some kvs"
  proof (intro mapM_Some_id)
    fix e assume e: "e \<in> set kvs"
    obtain k v where kv: "e = (k, v)" by (cases e)
    with e Obj.prems have "av_free v" "no_truthy_M P v" "plain_keys v"
      by (auto simp: list_all_iff)
    with Obj.IH [of e v] e kv show "(case e of (k, v) \<Rightarrow> map_option (Pair k) (unmarshallDeep P v)) = Some e"
      by simp
  qed
  have nav: "\<not> isAttributeValue (Obj kvs)" using Obj.prems(1) by simp
  have nmap: "\<not> maybeMapOfAVs (Obj kvs)"
  proof (cases kvs)
    case Nil
    then show ?thesis by (simp add: maybeMapOfAVs_def entries_def)
  next
    case (Cons e es)
    obtain k v where kv: "e = (k, v)" by (cases e)
    with Cons Obj.prems(1) have "\<not> isAttributeValue v"
      using av_free_not_AV [of v] by auto
    with Cons kv show ?thesis by (simp add: maybeMapOfAVs_def entries_def)
  qed
  have m: "case map_of kvs ''M'' of Some m \<Rightarrow> \<not> truthy P m | None \<Rightarrow> True"
    using Obj.prems(2) by simp
  have "from_entries kvs = kvs"
    using Obj.prems(3) by (simp add: from_entries_plain)
  with nav nmap m each show ?case
    by (simp add: unmarshallDeep_generic)
qed (simp_all add: unmarshallDeep.simps isAttributeValue_def)




section \<open>Properties of type inference\<close>

lemma nullable_iff: "nullable r \<longleftrightarrow> [] \<in> lang r"
  by (induction r) (auto simp: conc_def intro: star.intros)

lemma conc_Cons:
  "c # w \<in> conc A B \<longleftrightarrow>
     (\<exists>u v. w = u @ v \<and> c # u \<in> A \<and> v \<in> B) \<or> ([] \<in> A \<and> c # w \<in> B)"
  (is "?l \<longleftrightarrow> ?r")
proof
  assume ?l
  then obtain u v where uv: "c # w = u @ v" "u \<in> A" "v \<in> B"
    by (auto simp: conc_def)
  then show ?r by (cases u) auto
next
  assume ?r
  then show ?l
  proof
    assume "\<exists>u v. w = u @ v \<and> c # u \<in> A \<and> v \<in> B"
    then obtain u v where "w = u @ v" "c # u \<in> A" "v \<in> B" by blast
    then have "(c # u) @ v \<in> conc A B" unfolding conc_def by blast
    then show ?l using \<open>w = u @ v\<close> by simp
  next
    assume "[] \<in> A \<and> c # w \<in> B"
    then have "[] @ (c # w) \<in> conc A B" unfolding conc_def by blast
    then show ?l by simp
  qed
qed

lemma star_Cons_aux:
  "x \<in> star A \<Longrightarrow> x = c # w \<Longrightarrow> \<exists>u v. w = u @ v \<and> c # u \<in> A \<and> v \<in> star A"
proof (induction arbitrary: w rule: star.induct)
  case star_empty
  then show ?case by simp
next
  case (star_step u v)
  show ?case
  proof (cases u)
    case Nil
    with star_step show ?thesis by simp
  next
    case (Cons a u')
    with star_step.prems have "a = c" "w = u' @ v" by simp_all
    with Cons star_step.hyps show ?thesis by blast
  qed
qed

lemma star_Cons:
  "c # w \<in> star A \<longleftrightarrow> (\<exists>u v. w = u @ v \<and> c # u \<in> A \<and> v \<in> star A)"
proof
  assume "c # w \<in> star A"
  then show "\<exists>u v. w = u @ v \<and> c # u \<in> A \<and> v \<in> star A"
    by (rule star_Cons_aux) simp
next
  assume "\<exists>u v. w = u @ v \<and> c # u \<in> A \<and> v \<in> star A"
  then obtain u v where "w = u @ v" "c # u \<in> A" "v \<in> star A" by blast
  then show "c # w \<in> star A"
    using star_step [of "c # u" A v] by simp
qed

lemma lang_deriv: "lang (deriv c r) = {w. c # w \<in> lang r}"
proof (induction r)
  case (Times r s)
  then show ?case
    by (auto simp: conc_Cons nullable_iff) (auto simp: conc_def)
next
  case (Star r)
  then show ?case
    by (auto simp: star_Cons) (auto simp: conc_def)
qed auto

lemma regex_test_lang: "regex_test r s \<longleftrightarrow> s \<in> lang r"
  by (induction s arbitrary: r) (simp_all add: nullable_iff lang_deriv)


lemma star_chars: "star {[c] | c. c \<in> S} = {s. set s \<subseteq> S}"
proof (intro set_eqI iffI)
  fix s assume "s \<in> star {[c] | c. c \<in> S}"
  then show "s \<in> {s. set s \<subseteq> S}"
    by induction auto
next
  fix s assume "s \<in> {s. set s \<subseteq> S}"
  then show "s \<in> star {[c] | c. c \<in> S}"
  proof (induction s)
    case Nil
    then show ?case by (simp add: star_empty)
  next
    case (Cons c s)
    then have "[c] @ s \<in> star {[c] | c. c \<in> S}"
      by (intro star_step) auto
    then show ?case by simp
  qed
qed

lemma lang_Many1_Digit: "lang (Many1 Digit) = {ds. spec_digits ds}"
proof -
  have "conc {[c] | c. c \<in> S} {s. set s \<subseteq> S} = {s. s \<noteq> [] \<and> set s \<subseteq> S}" for S :: "char set"
  proof (intro set_eqI iffI)
    fix s assume "s \<in> conc {[c] | c. c \<in> S} {s. set s \<subseteq> S}"
    then show "s \<in> {s. s \<noteq> [] \<and> set s \<subseteq> S}" by (auto simp: conc_def)
  next
    fix s assume "s \<in> {s. s \<noteq> [] \<and> set s \<subseteq> S}"
    then obtain c r where "s = [c] @ r" "c \<in> S" "set r \<subseteq> S" by (cases s) auto
    then show "s \<in> conc {[c] | c. c \<in> S} {s. set s \<subseteq> S}"
      unfolding conc_def by blast
  qed
  then have "lang (Many1 Digit)
          = {s. s \<noteq> [] \<and> set s \<subseteq> set ''0123456789''}"
    by (simp only: Many1_def Digit_def lang.simps star_chars)
  also have "\<dots> = {ds. spec_digits ds}"
    unfolding spec_digits_def is_digit_def by blast
  finally show ?thesis .
qed

lemma lang_Opt: "lang (Opt r) = insert [] (lang r)"
  by (auto simp: Opt_def)

lemma conc_single: "conc {p} B = {p @ v | v. v \<in> B}"
  unfolding conc_def by blast

lemma lang_Chars_single: "lang (Chars [c]) = {[c]}"
  by auto

lemma lang_fraction:
  "lang (Opt (Times (Chars ''.'') (Many1 Digit)))
     = {frac. frac = [] \<or> (\<exists>fp. frac = ''.'' @ fp \<and> spec_digits fp)}"
proof -
  have "lang (Opt (Times (Chars ''.'') (Many1 Digit)))
          = insert [] (conc {''.''} {ds. spec_digits ds})"
    by (simp only: lang_Opt lang.simps(4) lang_Many1_Digit lang_Chars_single)
  also have "\<dots> = {frac. frac = [] \<or> (\<exists>fp. frac = ''.'' @ fp \<and> spec_digits fp)}"
    unfolding conc_single by blast
  finally show ?thesis .
qed

lemma lang_sign: "lang (Opt (Chars ''+-'')) = {[], ''+'', ''-''}"
proof -
  have "lang (Chars ''+-'') = {''+'', ''-''}" by auto
  then show ?thesis by (simp only: lang_Opt)
qed

lemma lang_mark: "lang (Chars ''eE'') = {''e'', ''E''}"
  by auto

lemma lang_exponent:
  "lang (Opt (Times (Chars ''eE'') (Times (Opt (Chars ''+-'')) (Many1 Digit))))
     = {ex. ex = [] \<or>
            (\<exists>e sg ds. ex = e # sg @ ds \<and> (e = CHR ''e'' \<or> e = CHR ''E'')
               \<and> (sg = [] \<or> sg = ''+'' \<or> sg = ''-'') \<and> spec_digits ds)}"
proof -
  have "lang (Opt (Times (Chars ''eE'') (Times (Opt (Chars ''+-'')) (Many1 Digit))))
          = insert [] (conc {''e'', ''E''} (conc {[], ''+'', ''-''} {ds. spec_digits ds}))"
    by (simp only: lang_Opt [of "Times _ _"] lang.simps(4) lang_Many1_Digit lang_sign lang_mark)
  also have "\<dots> = {ex. ex = [] \<or>
            (\<exists>e sg ds. ex = e # sg @ ds \<and> (e = CHR ''e'' \<or> e = CHR ''E'')
               \<and> (sg = [] \<or> sg = ''+'' \<or> sg = ''-'') \<and> spec_digits ds)}"
    (is "insert [] ?A = ?B")
  proof (intro set_eqI iffI)
    fix ex assume "ex \<in> insert [] ?A"
    then consider "ex = []" | "ex \<in> ?A" by blast
    then show "ex \<in> ?B"
    proof cases
      case 1
      then show ?thesis by simp
    next
      case 2
      then obtain m sg ds where "ex = m @ sg @ ds" "m = ''e'' \<or> m = ''E''"
        "sg = [] \<or> sg = ''+'' \<or> sg = ''-''" "spec_digits ds"
        unfolding conc_def by blast
      then have "\<exists>e sg ds. ex = e # sg @ ds \<and> (e = CHR ''e'' \<or> e = CHR ''E'')
               \<and> (sg = [] \<or> sg = ''+'' \<or> sg = ''-'') \<and> spec_digits ds"
        by (metis append_Cons append_Nil)
      then show ?thesis by simp
    qed
  next
    fix ex assume "ex \<in> ?B"
    then consider "ex = []"
      | e sg ds where "ex = [e] @ (sg @ ds)" "e = CHR ''e'' \<or> e = CHR ''E''"
          "sg = [] \<or> sg = ''+'' \<or> sg = ''-''" "spec_digits ds"
      by auto
    then show "ex \<in> insert [] ?A"
    proof cases
      case 1
      then show ?thesis by simp
    next
      case 2
      have "sg @ ds \<in> conc {[], ''+'', ''-''} {ds. spec_digits ds}"
        unfolding conc_def using 2(3,4) by blast
      moreover have "[e] \<in> {''e'', ''E''}" using 2(2) by blast
      ultimately have "[e] @ (sg @ ds) \<in> ?A"
        unfolding conc_def [of "{''e'', ''E''}"] by blast
      then show ?thesis using 2(1) by simp
    qed
  qed
  finally show ?thesis .
qed

lemma lang_minus: "lang (Opt (Chars ''-'')) = {[], ''-''}"
proof -
  have "lang (Chars ''-'') = {''-''}" by auto
  then show ?thesis by (simp only: lang_Opt)
qed

lemma conc_iff: "t \<in> conc A B \<longleftrightarrow> (\<exists>u v. t = u @ v \<and> u \<in> A \<and> v \<in> B)"
  unfolding conc_def by blast

lemma lang_numeric_regex: "t \<in> lang numeric_regex \<longleftrightarrow> spec_numeric_pattern t"
proof -
  let ?F = "{frac. frac = [] \<or> (\<exists>fp. frac = ''.'' @ fp \<and> spec_digits fp)}"
  let ?E = "{ex. ex = [] \<or>
            (\<exists>e sg ds. ex = e # sg @ ds \<and> (e = CHR ''e'' \<or> e = CHR ''E'')
               \<and> (sg = [] \<or> sg = ''+'' \<or> sg = ''-'') \<and> spec_digits ds)}"
  have "lang numeric_regex = conc {[], ''-''} (conc {ds. spec_digits ds} (conc ?F ?E))"
    unfolding numeric_regex_def
    by (simp only: lang.simps(4) lang_minus lang_Many1_Digit lang_fraction lang_exponent)
  then have "t \<in> lang numeric_regex \<longleftrightarrow>
      (\<exists>sign ip frac ex. t = sign @ ip @ frac @ ex \<and> sign \<in> {[], ''-''}
          \<and> spec_digits ip \<and> frac \<in> ?F \<and> ex \<in> ?E)"
    by (simp only: conc_iff mem_Collect_eq) blast
  also have "\<dots> \<longleftrightarrow> spec_numeric_pattern t"
    unfolding spec_numeric_pattern_def by (simp only: mem_Collect_eq insert_iff empty_iff) blast
  finally show ?thesis .
qed

lemma numeric_regex_spec: "regex_test numeric_regex t \<longleftrightarrow> spec_numeric_pattern t"
  by (simp add: regex_test_lang lang_numeric_regex)

lemma lower_char_letter:
  assumes "97 \<le> (of_char b :: nat)" and "(of_char b :: nat) \<le> 122"
  shows "lower_char a = b \<longleftrightarrow> a = b \<or> (of_char a :: nat) + 32 = of_char b"
proof -
  define n :: nat where "n = of_char a"
  define m :: nat where "m = of_char b"
  have m: "97 \<le> m" "m \<le> 122" using assms by (simp_all add: m_def)
  have ab: "a = b \<longleftrightarrow> n = m" by (simp add: n_def m_def)
  have lb: "lower_char a = b \<longleftrightarrow> (of_char (lower_char a) :: nat) = m"
    by (simp add: m_def)
  have "lower_char a = b \<longleftrightarrow> n = m \<or> n + 32 = m"
  proof (cases "(65 \<le> n \<and> n \<le> 90) \<or> (192 \<le> n \<and> n \<le> 222 \<and> n \<noteq> 215)")
    case True
    then have "n + 32 < 256" by arith
    then have "(n + 32) mod 256 = n + 32" by (rule mod_less)
    with True have "(of_char (lower_char a) :: nat) = n + 32"
      by (simp add: lower_char_def Let_def n_def [symmetric])
    then have "lower_char a = b \<longleftrightarrow> n + 32 = m"
      by (simp only: lb)
    moreover from True m have "n \<noteq> m" by arith
    ultimately show ?thesis by blast
  next
    case False
    then have "lower_char a = a"
      by (auto simp: lower_char_def Let_def n_def [symmetric])
    then have "lower_char a = b \<longleftrightarrow> n = m"
      by (simp only: ab)
    moreover from False m have "n + 32 \<noteq> m" by arith
    ultimately show ?thesis by blast
  qed
  then show ?thesis by (simp only: ab n_def m_def)
qed

lemma toLowerCase_ci_match:
  "(\<forall>b \<in> set w. 97 \<le> (of_char b :: nat) \<and> (of_char b :: nat) \<le> 122) \<Longrightarrow>
     toLowerCase t = w \<longleftrightarrow> spec_ci_match t w"
proof (induction w arbitrary: t)
  case Nil
  then show ?case by (simp add: toLowerCase_def spec_ci_match_def)
next
  case (Cons b w)
  show ?case
  proof (cases t)
    case Nil
    then show ?thesis by (simp add: toLowerCase_def spec_ci_match_def)
  next
    case (Cons a t')
    have "toLowerCase t' = w \<longleftrightarrow> spec_ci_match t' w"
      using Cons.prems by (intro Cons.IH) simp
    moreover have "lower_char a = b \<longleftrightarrow> a = b \<or> (of_char a :: nat) + 32 = of_char b"
      using Cons.prems by (intro lower_char_letter) simp_all
    ultimately show ?thesis
      using Cons by (simp add: toLowerCase_def spec_ci_match_def)
  qed
qed

lemma ci_words:
  "toLowerCase t = ''null'' \<longleftrightarrow> spec_ci_match t ''null''"
  "toLowerCase t = ''true'' \<longleftrightarrow> spec_ci_match t ''true''"
  "toLowerCase t = ''false'' \<longleftrightarrow> spec_ci_match t ''false''"
  by (rule toLowerCase_ci_match; simp)+

lemma inferScalar_examples:
  "trim ''null'' = ''null''" "trim ''true'' = ''true''" "trim ''false'' = ''false''"
  "trim ''123.45'' = ''123.45''" "trim [] = []"
  "toLowerCase ''123.45'' = ''123.45''"
  "toLowerCase ''null'' = ''null''" "toLowerCase ''true'' = ''true''"
  "toLowerCase ''false'' = ''false''"
  "regex_test numeric_regex ''123.45''"
  by code_simp+




lemma exact_number_example: "exact_number ''123.45'' = XFin (12345 / 100)"
proof -
  have "decimal_value ''123.45'' = 12345 / 100"
    by (simp add: decimal_value_def unsigned_decimal_value_def exponent_value_def
        digits_value_def is_digit_def)
  then show ?thesis
    by (simp add: exact_number_def Let_def inferScalar_examples del: regex_test.simps)
qed


section \<open>Properties of the converter\<close>

lemma numeric_first_char:
  assumes "spec_numeric_pattern (c # rest)"
  shows "c = CHR ''-'' \<or> is_digit c"
proof -
  from assms obtain sign ip frac ex where
    t: "c # rest = sign @ ip @ frac @ ex" and s: "sign = [] \<or> sign = ''-''"
    and d: "spec_digits ip"
    unfolding spec_numeric_pattern_def by blast
  from d obtain a ip' where ip: "ip = a # ip'" and a: "is_digit a"
    by (cases ip) (auto simp: spec_digits_def)
  from s show ?thesis
  proof
    assume "sign = []"
    with t ip a show ?thesis by simp
  next
    assume "sign = ''-''"
    with t show ?thesis by simp
  qed
qed

lemma lower_char_bracket:
  "lower_char (CHR ''{'') = CHR ''{''" "lower_char (CHR ''['') = CHR ''[''"
  "lower_char DQ = DQ"
  by (simp_all add: lower_char_def DQ_def)

lemma looksLikeJSON_inferScalar:
  fixes P :: "'n platform"
  assumes "looksLikeJSON (Str s :: 'n jsval)"
  shows "inferScalar P (Str s) = Str s"
proof -
  from assms obtain c rest where t: "trim s = c # rest"
    and c: "c = CHR ''{'' \<or> c = CHR ''['' \<or> c = DQ"
    by (auto simp: looksLikeJSON_def split: list.splits)
  from c have lc: "lower_char c = c" by (auto simp: lower_char_bracket)
  from c have nd: "\<not> (c = CHR ''-'' \<or> is_digit c)"
    by (auto simp: is_digit_def DQ_def)
  have "\<not> regex_test numeric_regex (trim s)"
    using numeric_first_char [of c rest] nd by (simp only: numeric_regex_spec t) blast
  moreover have "toLowerCase (trim s) \<noteq> ''null''" "toLowerCase (trim s) \<noteq> ''true''"
    "toLowerCase (trim s) \<noteq> ''false''"
    using c by (auto simp: t toLowerCase_def lc DQ_def)
  ultimately show ?thesis
    by (simp add: inferScalar_def Let_def t del: regex_test.simps)
qed

lemma field_value_malformed:
  fixes P :: "'n platform"
  assumes "parseNestedJSON opts" and "looksLikeJSON (Str cell :: 'n jsval)"
    and "json_parse P cell = None"
  shows "field_value P opts cell = Some (Str cell)"
  using assms
  by (simp add: field_value_def Let_def truthy_def typeof_object_def looksLikeJSON_inferScalar)


lemma map_of_obj_set:
  "k \<noteq> ''__proto__'' \<Longrightarrow> map_of (obj_set obj k v) = (map_of obj)(k \<mapsto> v)"
  "map_of (obj_set obj ''__proto__'' v) = map_of obj"
  by (simp_all add: obj_set_def update_conv')

lemma map_of_obj_set_other: "k' \<noteq> k \<Longrightarrow> map_of (obj_set obj k v) k' = map_of obj k'"
  by (cases "k = ''__proto__''") (simp_all add: map_of_obj_set)

lemma build_record_other:
  "build_record P opts r hs obj = Some rec \<Longrightarrow>
     k \<notin> set (map (\<lambda>(idx, h). column_name h idx) hs) \<Longrightarrow> map_of rec k = map_of obj k"
proof (induction hs arbitrary: obj)
  case Nil
  then show ?case by simp
next
  case (Cons e hs)
  obtain idx h where e: "e = (idx, h)" by (cases e)
  from Cons.prems(1) obtain v where
    v: "field_value P opts (cell_or_empty r idx) = Some v"
    and rest: "build_record P opts r hs (obj_set obj (column_name h idx) v) = Some rec"
    by (auto simp: e split: Option.bind_splits)
  from Cons.prems(2) have "k \<noteq> column_name h idx"
    and "k \<notin> set (map (\<lambda>(idx, h). column_name h idx) hs)"
    by (auto simp: e)
  with Cons.IH [OF rest] show ?case
    by (simp add: map_of_obj_set_other)
qed

text \<open>
  Each column of a record holds what its own cell converts to, whatever the other cells
  of the row are, as long as no other column goes by the same name.
\<close>

lemma build_record_lookup:
  "build_record P opts r hs obj = Some rec \<Longrightarrow>
     distinct (map (\<lambda>(idx, h). column_name h idx) hs) \<Longrightarrow>
     (idx, h) \<in> set hs \<Longrightarrow> column_name h idx \<noteq> ''__proto__'' \<Longrightarrow>
     map_of rec (column_name h idx) = field_value P opts (cell_or_empty r idx)"
proof (induction hs arbitrary: obj)
  case Nil
  then show ?case by simp
next
  case (Cons e hs)
  obtain i g where e: "e = (i, g)" by (cases e)
  from Cons.prems(1) obtain v where
    v: "field_value P opts (cell_or_empty r i) = Some v"
    and rest: "build_record P opts r hs (obj_set obj (column_name g i) v) = Some rec"
    by (auto simp: e split: Option.bind_splits)
  from Cons.prems(2) have d: "distinct (map (\<lambda>(idx, h). column_name h idx) hs)"
    and fresh: "column_name g i \<notin> set (map (\<lambda>(idx, h). column_name h idx) hs)"
    by (simp_all add: e)
  show ?case
  proof (cases "(idx, h) = (i, g)")
    case True
    with build_record_other [OF rest fresh] Cons.prems(4) v show ?thesis
      by (simp add: map_of_obj_set)
  next
    case False
    with Cons.prems(3) have "(idx, h) \<in> set hs" by (auto simp: e)
    from Cons.IH [OF rest d this Cons.prems(4)] show ?thesis .
  qed
qed

lemma build_record_keys:
  "build_record P opts r hs obj = Some rec \<Longrightarrow> distinct (map fst obj) \<Longrightarrow>
     distinct (map fst rec)
     \<and> set (map fst rec)
         = set (map fst obj) \<union> (set (map (\<lambda>(idx, h). column_name h idx) hs) - {''__proto__''})"
proof (induction hs arbitrary: obj)
  case Nil
  then show ?case by simp
next
  case (Cons e hs)
  obtain i g where e: "e = (i, g)" by (cases e)
  from Cons.prems(1) obtain v where
    rest: "build_record P opts r hs (obj_set obj (column_name g i) v) = Some rec"
    by (auto simp: e split: Option.bind_splits)
  let ?obj = "obj_set obj (column_name g i) v"
  have d: "distinct (map fst ?obj)"
    using Cons.prems(2) by (simp add: obj_set_def distinct_update)
  have k: "set (map fst ?obj) = set (map fst obj) \<union> ({column_name g i} - {''__proto__''})"
    by (auto simp: obj_set_def dom_update)
  from Cons.IH [OF rest d] k show ?case
    by (auto simp: e)
qed

lemma build_record_fresh:
  "build_record P opts r hs obj = Some rec \<Longrightarrow>
     distinct (map fst obj @ map (\<lambda>(idx, h). column_name h idx) hs) \<Longrightarrow>
     ''__proto__'' \<notin> set (map (\<lambda>(idx, h). column_name h idx) hs) \<Longrightarrow>
     map fst rec = map fst obj @ map (\<lambda>(idx, h). column_name h idx) hs"
proof (induction hs arbitrary: obj)
  case Nil
  then show ?case by simp
next
  case (Cons e hs)
  obtain i g where e: "e = (i, g)" by (cases e)
  from Cons.prems(1) obtain v where
    rest: "build_record P opts r hs (obj_set obj (column_name g i) v) = Some rec"
    by (auto simp: e split: Option.bind_splits)
  from Cons.prems(2,3) have fresh: "column_name g i \<notin> fst ` set obj"
    and np: "column_name g i \<noteq> ''__proto__''"
    by (auto simp: e)
  then have o: "obj_set obj (column_name g i) v = obj @ [(column_name g i, v)]"
    by (simp add: obj_set_def update_fresh)
  have "map fst rec = map fst (obj @ [(column_name g i, v)])
          @ map (\<lambda>(idx, h). column_name h idx) hs"
    using Cons.prems(2,3) by (intro Cons.IH) (use rest o in \<open>auto simp: e\<close>)
  then show ?case by (simp add: e)
qed


lemma build_record_succeeds:
  "(\<And>idx h. (idx, h) \<in> set hs \<Longrightarrow> field_value P opts (cell_or_empty r idx) \<noteq> None) \<Longrightarrow>
     build_record P opts r hs obj \<noteq> None"
proof (induction hs arbitrary: obj)
  case Nil
  then show ?case by simp
next
  case (Cons e hs)
  obtain i g where e: "e = (i, g)" by (cases e)
  from Cons.prems [of i g] obtain v where v: "field_value P opts (cell_or_empty r i) = Some v"
    by (auto simp: e)
  have "build_record P opts r hs (obj_set obj (column_name g i) v) \<noteq> None"
    using Cons.prems by (intro Cons.IH) (auto simp: e)
  with v show ?case by (simp add: e)
qed

lemma enumerate_from_index:
  "(i, x) \<in> set (enumerate_from n xs) \<Longrightarrow> n \<le> i \<and> i < n + length xs"
  by (induction xs arbitrary: n) fastforce+

lemma enumerate_from_length: "length (enumerate_from n xs) = length xs"
  by (induction xs arbitrary: n) auto

lemma mapM_succeeds: "(\<And>x. x \<in> set xs \<Longrightarrow> f x \<noteq> None) \<Longrightarrow> mapM f xs \<noteq> None"
proof (induction xs)
  case Nil
  then show ?case by simp
next
  case (Cons a xs)
  from Cons.prems [of a] obtain y where "f a = Some y" by auto
  moreover from Cons obtain ys where "mapM f xs = Some ys" by auto
  ultimately show ?case by simp
qed

text \<open>
  C8. With \<^verbatim>\<open>parseNestedJSON\<close> set, a cell that looks like an embedded structure and that
  \<^verbatim>\<open>JSON.parse\<close> rejects is converted to its original string, whatever the other two
  options are: the failure is no failure of the field. The record of its row is built
  on from there, the string stored under the name of the column; in a finished record
  every column of its own name, this one included, holds what its own cell converts
  to; and a table in which every cell is such a malformed text or converts by itself is
  converted as a whole, one record for each row that is not blank.
\<close>

theorem malformed_embedded_field:
  fixes P :: "'n platform"
  assumes "parseNestedJSON opts" and "looksLikeJSON (Str cell :: 'n jsval)"
    and "json_parse P cell = None"
    and "cell_or_empty r idx = cell"
  shows "field_value P opts cell = Some (Str cell)
    \<and> build_record P opts r ((idx, h) # hs) obj
        = build_record P opts r hs (obj_set obj (column_name h idx) (Str cell))
    \<and> (build_record P opts r cols [] = Some rec
         \<and> distinct (map (\<lambda>(i, g). column_name g i) cols)
         \<and> (idx, h) \<in> set cols \<and> column_name h idx \<noteq> ''__proto__''
         \<and> (j, g) \<in> set cols \<and> column_name g j \<noteq> ''__proto__''
       \<longrightarrow> map_of rec (column_name h idx) = Some (Str cell)
           \<and> map_of rec (column_name g j) = field_value P opts (cell_or_empty r j))
    \<and> ((\<forall>r' \<in> set dataRows. \<forall>i < length header.
           (looksLikeJSON (Str (cell_or_empty r' i) :: 'n jsval) \<and> json_parse P (cell_or_empty r' i) = None)
           \<or> field_value P opts (cell_or_empty r' i) \<noteq> None)
       \<longrightarrow> (\<exists>recs. convertRowsToObjects P (header # dataRows) opts = Some recs
              \<and> length recs = length (filter nonblank_row dataRows)))"
proof (intro conjI impI)
  show fv: "field_value P opts cell = Some (Str cell)"
    using assms(1-3) by (rule field_value_malformed)
  then show "build_record P opts r ((idx, h) # hs) obj
        = build_record P opts r hs (obj_set obj (column_name h idx) (Str cell))"
    using assms(4) by simp
next
  assume a: "build_record P opts r cols [] = Some rec
         \<and> distinct (map (\<lambda>(i, g). column_name g i) cols)
         \<and> (idx, h) \<in> set cols \<and> column_name h idx \<noteq> ''__proto__''
         \<and> (j, g) \<in> set cols \<and> column_name g j \<noteq> ''__proto__''"
  then have "map_of rec (column_name h idx) = field_value P opts (cell_or_empty r idx)"
    by (intro build_record_lookup) auto
  then show "map_of rec (column_name h idx) = Some (Str cell)"
    using assms by (simp add: field_value_malformed)
  from a show "map_of rec (column_name g j) = field_value P opts (cell_or_empty r j)"
    by (intro build_record_lookup) auto
next
  assume a: "\<forall>r' \<in> set dataRows. \<forall>i < length header.
           (looksLikeJSON (Str (cell_or_empty r' i) :: 'n jsval) \<and> json_parse P (cell_or_empty r' i) = None)
           \<or> field_value P opts (cell_or_empty r' i) \<noteq> None"
  let ?conv = "\<lambda>r. map_option Obj
                   (build_record P opts r (enumerate_from 0 (map trim header)) [])"
  have "?conv r' \<noteq> None" if r': "r' \<in> set (filter nonblank_row dataRows)" for r'
  proof -
    have "field_value P opts (cell_or_empty r' i) \<noteq> None"
      if "(i, g) \<in> set (enumerate_from 0 (map trim header))" for i g
    proof -
      from that have "i < length header"
        using enumerate_from_index [of i g 0 "map trim header"] by simp
      moreover from r' have "r' \<in> set dataRows" by simp
      ultimately have "(looksLikeJSON (Str (cell_or_empty r' i) :: 'n jsval)
                        \<and> json_parse P (cell_or_empty r' i) = None)
                      \<or> field_value P opts (cell_or_empty r' i) \<noteq> None"
        using a by blast
      then show ?thesis
        using assms(1) field_value_malformed [of opts "cell_or_empty r' i" P] by auto
    qed
    then have "build_record P opts r' (enumerate_from 0 (map trim header)) [] \<noteq> None"
      by (rule build_record_succeeds)
    then show ?thesis by simp
  qed
  then have "mapM ?conv (filter nonblank_row dataRows) \<noteq> None"
    by (rule mapM_succeeds)
  then obtain recs where recs: "mapM ?conv (filter nonblank_row dataRows) = Some recs"
    by blast
  then have "length recs = length (filter nonblank_row dataRows)"
    by (rule mapM_length)
  with recs show "\<exists>recs. convertRowsToObjects P (header # dataRows) opts = Some recs
              \<and> length recs = length (filter nonblank_row dataRows)"
    by (simp add: convertRowsToObjects_def Let_def)
qed


theorem malformed_embedded_field_witness:
  "parseNestedJSON \<lparr>parseNestedJSON = True, doUnmarshall = True, doInferTypes = True\<rparr>
   \<and> looksLikeJSON (Str ''{notjson}'' :: xnum jsval)
   \<and> json_parse exact_platform ''{notjson}'' = None
   \<and> cell_or_empty [''x'', ''{notjson}''] 1 = ''{notjson}''
   \<and> field_value exact_platform
        \<lparr>parseNestedJSON = True, doUnmarshall = True, doInferTypes = True\<rparr> ''{notjson}''
       = Some (Str ''{notjson}'')
   \<and> convertRowsToObjects exact_platform [[''id'', ''bad''], [''x'', ''{notjson}'']]
        \<lparr>parseNestedJSON = True, doUnmarshall = True, doInferTypes = True\<rparr>
       = Some [Obj [(''id'', Str ''x''), (''bad'', Str ''{notjson}'')]]"
proof -
  let ?opts = "\<lparr>parseNestedJSON = True, doUnmarshall = True, doInferTypes = True\<rparr>"
  have h1: "parseNestedJSON ?opts" by simp
  have h2: "looksLikeJSON (Str ''{notjson}'' :: xnum jsval)" by code_simp
  have h3: "json_parse exact_platform ''{notjson}'' = None" by code_simp
  have h4: "cell_or_empty [''x'', ''{notjson}''] 1 = ''{notjson}''" by code_simp
  have e: "convertRowsToObjects exact_platform [[''id'', ''bad''], [''x'', ''{notjson}'']] ?opts
       = Some [Obj [(''id'', Str ''x''), (''bad'', Str ''{notjson}'')]]"
    by code_simp
  from malformed_embedded_field [OF h1 h2 h3 h4] have
    "field_value exact_platform ?opts ''{notjson}'' = Some (Str ''{notjson}'')"
    by (rule conjunct1)
  with h1 h2 h3 h4 e show ?thesis by (simp only: simp_thms)
qed

lemma list_all2_in_set2:
  "list_all2 R xs ys \<Longrightarrow> y \<in> set ys \<Longrightarrow> \<exists>x \<in> set xs. R x y"
  by (induction rule: list_all2_induct) auto




section \<open>Properties of the detector\<close>

lemma trim_empty_iff: "trim s = [] \<longleftrightarrow> (\<forall>c \<in> set s. is_space c)"
proof -
  have "trim s = [] \<longleftrightarrow> (\<forall>c \<in> set (dropWhile is_space s). is_space c)"
    by (simp add: trim_def dropWhile_eq_Nil_conv)
  also have "\<dots> \<longleftrightarrow> dropWhile is_space s = []"
  proof
    assume a: "\<forall>c \<in> set (dropWhile is_space s). is_space c"
    show "dropWhile is_space s = []"
    proof (rule ccontr)
      assume n: "dropWhile is_space s \<noteq> []"
      then have "\<not> is_space (hd (dropWhile is_space s))" by (rule hd_dropWhile)
      moreover from n have "hd (dropWhile is_space s) \<in> set (dropWhile is_space s)"
        by simp
      ultimately show False using a by blast
    qed
  next
    assume e: "dropWhile is_space s = []"
    show "\<forall>c \<in> set (dropWhile is_space s). is_space c" unfolding e by simp
  qed
  also have "\<dots> \<longleftrightarrow> (\<forall>c \<in> set s. is_space c)"
    by (simp add: dropWhile_eq_Nil_conv)
  finally show ?thesis .
qed

lemma nonblank_row_iff: "nonblank_row r \<longleftrightarrow> (\<exists>f \<in> set r. \<exists>c \<in> set f. \<not> is_space c)"
  by (simp add: nonblank_row_def list_ex_iff trim_empty_iff)

lemma candidate_score_spec:
  "candidate_score P text d =
     (if qualifies text d then Some (spec_score P (parseCSV text d)) else None)"
proof -
  have "filter nonblank_row rs = filter (\<lambda>r. \<exists>f \<in> set r. \<exists>c \<in> set f. \<not> is_space c) rs"
    for rs by (rule filter_cong) (simp_all add: nonblank_row_iff)
  moreover have "hd (map length rs) = length (hd rs)" if "2 \<le> length rs" for rs :: "string list list"
    using that by (cases rs) auto
  ultimately show ?thesis
    by (auto simp: candidate_score_def qualifies_def spec_score_def Let_def
        length_remdups_card_conv)
qed



lemma set_map_filter: "set (List.map_filter f xs) = {y. \<exists>x \<in> set xs. f x = Some y}"
  by (induction xs) (auto split: option.splits)

lemma ordered_scores_subset:
  assumes "set ss \<subseteq> set ss'" and "ordered_scores P ss'"
  shows "ordered_scores P ss"
  unfolding ordered_scores_def
proof (intro conjI ballI)
  fix x assume "x \<in> set ss"
  with assms show "num_gt P x (neg_infinity P)" "\<not> num_gt P x x"
    unfolding ordered_scores_def by blast+
next
  fix x y z assume "x \<in> set ss" "y \<in> set ss" "z \<in> set ss"
  with assms(1) have m: "x \<in> set ss'" "y \<in> set ss'" "z \<in> set ss'" by blast+
  from assms(2) have "\<forall>x \<in> set ss'. \<forall>y \<in> set ss'. \<forall>z \<in> set ss'.
           (num_gt P x y \<and> num_gt P y z \<longrightarrow> num_gt P x z)
           \<and> (num_gt P x z \<longrightarrow> num_gt P x y \<or> num_gt P y z)"
    unfolding ordered_scores_def by (rule conjunct2)
  with m show "num_gt P x y \<and> num_gt P y z \<longrightarrow> num_gt P x z"
    "num_gt P x z \<longrightarrow> num_gt P x y \<or> num_gt P y z"
    by blast+
qed

lemma ordered_scoresD:
  assumes "ordered_scores P ss"
  shows "a \<in> set ss \<Longrightarrow> num_gt P a (neg_infinity P)"
    and "a \<in> set ss \<Longrightarrow> \<not> num_gt P a a"
    and "a \<in> set ss \<Longrightarrow> b \<in> set ss \<Longrightarrow> c \<in> set ss \<Longrightarrow>
        num_gt P a b \<Longrightarrow> num_gt P b c \<Longrightarrow> num_gt P a c"
    and "a \<in> set ss \<Longrightarrow> b \<in> set ss \<Longrightarrow> c \<in> set ss \<Longrightarrow>
        num_gt P a c \<Longrightarrow> num_gt P a b \<or> num_gt P b c"
proof -
  from assms have 1: "\<forall>x \<in> set ss. num_gt P x (neg_infinity P) \<and> \<not> num_gt P x x"
    and 2: "\<forall>x \<in> set ss. \<forall>y \<in> set ss. \<forall>z \<in> set ss.
           (num_gt P x y \<and> num_gt P y z \<longrightarrow> num_gt P x z)
           \<and> (num_gt P x z \<longrightarrow> num_gt P x y \<or> num_gt P y z)"
    unfolding ordered_scores_def by (rule conjunct1, rule conjunct2)
  show "a \<in> set ss \<Longrightarrow> num_gt P a (neg_infinity P)" using 1 by blast
  show "a \<in> set ss \<Longrightarrow> \<not> num_gt P a a" using 1 by blast
  show "a \<in> set ss \<Longrightarrow> b \<in> set ss \<Longrightarrow> c \<in> set ss \<Longrightarrow>
        num_gt P a b \<Longrightarrow> num_gt P b c \<Longrightarrow> num_gt P a c"
    using 2 by blast
  show "a \<in> set ss \<Longrightarrow> b \<in> set ss \<Longrightarrow> c \<in> set ss \<Longrightarrow>
        num_gt P a c \<Longrightarrow> num_gt P a b \<or> num_gt P b c"
    using 2 by blast
qed

lemma takeWhile_snoc_in: "b \<in> set xs \<Longrightarrow> takeWhile (\<lambda>d. d \<noteq> b) (xs @ [x]) = takeWhile (\<lambda>d. d \<noteq> b) xs"
  by (rule takeWhile_append1 [of b]) auto

lemma takeWhile_snoc_subset: "d \<in> set (takeWhile (\<lambda>d. d \<noteq> x) (xs @ [x])) \<Longrightarrow> d \<in> set xs"
proof -
  assume d: "d \<in> set (takeWhile (\<lambda>d. d \<noteq> x) (xs @ [x]))"
  then have "d \<in> set (xs @ [x])" by (rule set_takeWhileD [THEN conjunct1])
  moreover from d have "d \<noteq> x" by (rule set_takeWhileD [THEN conjunct2])
  ultimately show ?thesis by simp
qed

lemma first_bestD:
  assumes "first_best P cs ds b s"
  shows "b \<in> set ds" and "cs b = Some s"
    and "d \<in> set ds \<Longrightarrow> cs d = Some s' \<Longrightarrow> \<not> num_gt P s' s"
    and "d \<in> set (takeWhile (\<lambda>d. d \<noteq> b) ds) \<Longrightarrow> cs d = Some s' \<Longrightarrow> num_gt P s s'"
proof -
  from assms [unfolded first_best_def] have a: "b \<in> set ds \<and> cs b = Some s
     \<and> (\<forall>d \<in> set ds. \<forall>s'. cs d = Some s' \<longrightarrow> \<not> num_gt P s' s)
     \<and> (\<forall>d \<in> set (takeWhile (\<lambda>d. d \<noteq> b) ds). \<forall>s'. cs d = Some s' \<longrightarrow> num_gt P s s')"
    .
  from a show "b \<in> set ds" by (rule conjunct1)
  from a show "cs b = Some s" by blast
  from a show "d \<in> set ds \<Longrightarrow> cs d = Some s' \<Longrightarrow> \<not> num_gt P s' s" by blast
  from a show "d \<in> set (takeWhile (\<lambda>d. d \<noteq> b) ds) \<Longrightarrow> cs d = Some s' \<Longrightarrow> num_gt P s s'"
    by blast
qed

lemma first_bestI:
  assumes "b \<in> set ds" and "cs b = Some s"
    and "\<And>d s'. d \<in> set ds \<Longrightarrow> cs d = Some s' \<Longrightarrow> \<not> num_gt P s' s"
    and "\<And>d s'. d \<in> set (takeWhile (\<lambda>d. d \<noteq> b) ds) \<Longrightarrow> cs d = Some s' \<Longrightarrow> num_gt P s s'"
  shows "first_best P cs ds b s"
  unfolding first_best_def using assms by blast

lemma first_best_first:
  assumes "\<forall>d \<in> set xs. cs d = None" and "cs x = Some sx" and "\<not> num_gt P sx sx"
  shows "first_best P cs (xs @ [x]) x sx"
proof (rule first_bestI)
  show "x \<in> set (xs @ [x])" by simp
  show "cs x = Some sx" by (rule assms(2))
next
  fix d s' assume d: "d \<in> set (xs @ [x])" and s': "cs d = Some s'"
  have "d = x"
  proof (rule ccontr)
    assume "d \<noteq> x"
    with d have "d \<in> set xs" by simp
    with assms(1) have "cs d = None" by (rule bspec)
    with s' show False by simp
  qed
  with s' assms(2) have "s' = sx" by simp
  with assms(3) show "\<not> num_gt P s' sx" by simp
next
  fix d s' assume d: "d \<in> set (takeWhile (\<lambda>d. d \<noteq> x) (xs @ [x]))" and s': "cs d = Some s'"
  from d have "d \<in> set xs" by (rule takeWhile_snoc_subset)
  with assms(1) have "cs d = None" by (rule bspec)
  with s' show "num_gt P sx s'" by simp
qed

lemma first_best_skip:
  assumes fb: "first_best P cs xs b s" and x: "cs x = None"
  shows "first_best P cs (xs @ [x]) b s"
proof (rule first_bestI)
  note b = first_bestD(1) [OF fb]
  from b show "b \<in> set (xs @ [x])" by simp
  show "cs b = Some s" by (rule first_bestD(2) [OF fb])
  fix d s'
  {
    assume d: "d \<in> set (xs @ [x])" and s': "cs d = Some s'"
    from s' x have "d \<noteq> x" by auto
    with d have "d \<in> set xs" by simp
    then show "\<not> num_gt P s' s" using s' by (rule first_bestD(3) [OF fb])
  }
  {
    assume d: "d \<in> set (takeWhile (\<lambda>d. d \<noteq> b) (xs @ [x]))" and s': "cs d = Some s'"
    from d have "d \<in> set (takeWhile (\<lambda>d. d \<noteq> b) xs)"
      by (simp only: takeWhile_snoc_in [OF b])
    then show "num_gt P s s'" using s' by (rule first_bestD(4) [OF fb])
  }
qed

lemma first_best_keep:
  assumes fb: "first_best P cs xs b s" and x: "cs x = Some sx" and n: "\<not> num_gt P sx s"
  shows "first_best P cs (xs @ [x]) b s"
proof (rule first_bestI)
  note b = first_bestD(1) [OF fb]
  from b show "b \<in> set (xs @ [x])" by simp
  show "cs b = Some s" by (rule first_bestD(2) [OF fb])
  fix d s'
  {
    assume d: "d \<in> set (xs @ [x])" and s': "cs d = Some s'"
    show "\<not> num_gt P s' s"
    proof (cases "d = x")
      case True
      with s' x have "s' = sx" by simp
      with n show ?thesis by simp
    next
      case False
      with d have "d \<in> set xs" by simp
      then show ?thesis using s' by (rule first_bestD(3) [OF fb])
    qed
  }
  {
    assume d: "d \<in> set (takeWhile (\<lambda>d. d \<noteq> b) (xs @ [x]))" and s': "cs d = Some s'"
    from d have "d \<in> set (takeWhile (\<lambda>d. d \<noteq> b) xs)"
      by (simp only: takeWhile_snoc_in [OF b])
    then show "num_gt P s s'" using s' by (rule first_bestD(4) [OF fb])
  }
qed

lemma first_best_replace:
  assumes fb: "first_best P cs xs b s" and x: "cs x = Some sx" and gt: "num_gt P sx s"
    and ord: "ordered_scores P (List.map_filter cs (xs @ [x]))"
  shows "first_best P cs (xs @ [x]) x sx"
proof -
  let ?S = "List.map_filter cs (xs @ [x])"
  have mem: "s' \<in> set ?S" if "d \<in> set (xs @ [x])" "cs d = Some s'" for d s'
    using that unfolding set_map_filter by blast
  have sx: "sx \<in> set ?S" using _ x by (rule mem) simp
  have s: "s \<in> set ?S" using _ first_bestD(2) [OF fb]
    by (rule mem) (use first_bestD(1) [OF fb] in simp)
  have below: "\<not> num_gt P s' sx \<and> num_gt P sx s'" if d: "d \<in> set xs" and s': "cs d = Some s'"
    for d s'
  proof -
    have m: "s' \<in> set ?S" using _ s' by (rule mem) (use d in simp)
    from first_bestD(3) [OF fb d s'] have n: "\<not> num_gt P s' s" .
    have "\<not> num_gt P s' sx"
    proof
      assume "num_gt P s' sx"
      then have "num_gt P s' s" using gt by (rule ordered_scoresD(3) [OF ord m sx s])
      with n show False ..
    qed
    moreover from ordered_scoresD(4) [OF ord sx m s gt] n have "num_gt P sx s'" by blast
    ultimately show ?thesis ..
  qed
  show ?thesis
  proof (rule first_bestI)
    show "x \<in> set (xs @ [x])" by simp
    show "cs x = Some sx" by (rule x)
  next
    fix d s' assume d: "d \<in> set (xs @ [x])" and s': "cs d = Some s'"
    show "\<not> num_gt P s' sx"
    proof (cases "d = x")
      case True
      with s' x have "s' = sx" by simp
      then show ?thesis using ordered_scoresD(2) [OF ord sx] by simp
    next
      case False
      with d have "d \<in> set xs" by simp
      from below [OF this s'] show ?thesis ..
    qed
  next
    fix d s' assume d: "d \<in> set (takeWhile (\<lambda>d. d \<noteq> x) (xs @ [x]))" and s': "cs d = Some s'"
    from d have "d \<in> set xs" by (rule takeWhile_snoc_subset)
    from below [OF this s'] show "num_gt P sx s'" ..
  qed
qed

lemma detect_fold:
  assumes "ordered_scores P (List.map_filter (candidate_score P text) ds)"
  shows "((\<forall>d \<in> set ds. candidate_score P text d = None)
          \<and> foldl (detect_step P text) (b0, neg_infinity P) ds = (b0, neg_infinity P))
       \<or> (\<exists>b s. foldl (detect_step P text) (b0, neg_infinity P) ds = (b, s)
            \<and> first_best P (candidate_score P text) ds b s)"
  using assms
proof (induction ds rule: rev_induct)
  case Nil
  then show ?case by simp
next
  case (snoc x xs)
  let ?cs = "candidate_score P text"
  let ?run = "\<lambda>ds. foldl (detect_step P text) (b0, neg_infinity P) ds"
  note ord = snoc.prems
  have "set (List.map_filter ?cs xs) \<subseteq> set (List.map_filter ?cs (xs @ [x]))"
    unfolding set_map_filter by auto
  then have "ordered_scores P (List.map_filter ?cs xs)"
    using ord by (rule ordered_scores_subset)
  then have IH: "((\<forall>d \<in> set xs. ?cs d = None) \<and> ?run xs = (b0, neg_infinity P))
       \<or> (\<exists>b s. ?run xs = (b, s) \<and> first_best P ?cs xs b s)"
    by (rule snoc.IH)
  have run: "?run (xs @ [x]) = detect_step P text (?run xs) x" by simp
  show ?case
  proof (cases "?cs x")
    case None
    then have same: "?run (xs @ [x]) = ?run xs"
      unfolding run by (simp add: detect_step_def)
    from IH show ?thesis
    proof
      assume a: "(\<forall>d \<in> set xs. ?cs d = None) \<and> ?run xs = (b0, neg_infinity P)"
      with None have "\<forall>d \<in> set (xs @ [x]). ?cs d = None" by simp
      moreover from a same have "?run (xs @ [x]) = (b0, neg_infinity P)" by simp
      ultimately show ?thesis by blast
    next
      assume "\<exists>b s. ?run xs = (b, s) \<and> first_best P ?cs xs b s"
      then obtain b s where r: "?run xs = (b, s)" and fb: "first_best P ?cs xs b s" by blast
      from fb None have "first_best P ?cs (xs @ [x]) b s" by (rule first_best_skip)
      moreover from r same have "?run (xs @ [x]) = (b, s)" by simp
      ultimately show ?thesis by blast
    qed
  next
    case (Some sx)
    have "sx \<in> set (List.map_filter ?cs (xs @ [x]))"
      unfolding set_map_filter using Some by auto
    note sx = ordered_scoresD(1,2) [OF ord this]
    from IH show ?thesis
    proof
      assume a: "(\<forall>d \<in> set xs. ?cs d = None) \<and> ?run xs = (b0, neg_infinity P)"
      then have "?run (xs @ [x]) = (x, sx)"
        unfolding run using Some sx(1) by (simp add: detect_step_def)
      moreover from a Some sx(2) have "first_best P ?cs (xs @ [x]) x sx"
        by (intro first_best_first) simp_all
      ultimately show ?thesis by blast
    next
      assume "\<exists>b s. ?run xs = (b, s) \<and> first_best P ?cs xs b s"
      then obtain b s where r: "?run xs = (b, s)" and fb: "first_best P ?cs xs b s" by blast
      show ?thesis
      proof (cases "num_gt P sx s")
        case True
        then have "?run (xs @ [x]) = (x, sx)"
          unfolding run using Some r by (simp add: detect_step_def)
        moreover from fb Some True ord have "first_best P ?cs (xs @ [x]) x sx"
          by (rule first_best_replace)
        ultimately show ?thesis by blast
      next
        case False
        then have "?run (xs @ [x]) = (b, s)"
          unfolding run using Some r by (simp add: detect_step_def)
        moreover from fb Some False have "first_best P ?cs (xs @ [x]) b s"
          by (rule first_best_keep)
        ultimately show ?thesis by blast
      qed
    qed
  qed
qed

lemma spec_lines_Nil: "spec_lines [] = [[]]"
  by (simp add: spec_lines.simps [of "[]"])

lemma spec_lines_LF: "spec_lines (LF # rest) = [] # spec_lines rest"
  by (simp add: spec_lines.simps [of "LF # rest"] chomp_def)

lemma CR_neq_LF: "CR \<noteq> LF"
  by (simp add: CR_def LF_def)

lemma spec_lines_CRLF: "spec_lines (CR # LF # rest) = [] # spec_lines rest"
  by (simp add: spec_lines.simps [of "CR # LF # rest"] chomp_def CR_neq_LF)

lemma spec_lines_nonempty: "spec_lines s \<noteq> []"
  by (simp add: spec_lines.simps [of s])

lemma chomp_Cons:
  "l \<noteq> [] \<or> c \<noteq> CR \<Longrightarrow> chomp (c # l) = c # chomp l"
  by (auto simp: chomp_def)

lemma spec_lines_Cons:
  assumes "c \<noteq> LF" and "c \<noteq> CR \<or> (rest \<noteq> [] \<and> hd rest \<noteq> LF) \<or> rest = []"
  shows "spec_lines (c # rest) = (c # hd (spec_lines rest)) # tl (spec_lines rest)"
proof (cases "LF \<in> set rest")
  case False
  with assms(1) show ?thesis
    by (simp add: spec_lines.simps [of "c # rest"] spec_lines.simps [of rest])
next
  case True
  from True have rne: "rest \<noteq> []" by auto
  with assms(2) have c: "c \<noteq> CR \<or> hd rest \<noteq> LF" by auto
  have "takeWhile (\<lambda>c. c \<noteq> LF) rest \<noteq> [] \<or> c \<noteq> CR"
  proof (cases "hd rest = LF")
    case True
    with c show ?thesis by simp
  next
    case False
    with rne show ?thesis by (cases rest) auto
  qed
  then have "chomp (c # takeWhile (\<lambda>c. c \<noteq> LF) rest) = c # chomp (takeWhile (\<lambda>c. c \<noteq> LF) rest)"
    by (rule chomp_Cons)
  with True assms(1) show ?thesis
    by (simp add: spec_lines.simps [of "c # rest"] spec_lines.simps [of rest])
qed

lemma split_lines_acc_spec:
  "split_lines_acc cur s = (cur @ hd (spec_lines s)) # tl (spec_lines s)"
proof (induction s arbitrary: cur rule: length_induct)
  case (1 s)
  show ?case
  proof (cases s)
    case Nil
    then show ?thesis by (simp add: spec_lines_Nil)
  next
    case (Cons c rest)
    show ?thesis
    proof (cases "c = LF")
      case True
      have "split_lines_acc [] rest = spec_lines rest"
        using 1 [rule_format, of rest "[]"] spec_lines_nonempty [of rest] by (simp add: Cons)
      with True show ?thesis by (simp add: Cons spec_lines_LF)
    next
      case nlf: False
      show ?thesis
      proof (cases "c = CR \<and> (case rest of n # _ \<Rightarrow> n = LF | [] \<Rightarrow> False)")
        case True
        then obtain rest' where r: "rest = LF # rest'" and c: "c = CR"
          by (cases rest) auto
        have "split_lines_acc [] rest' = spec_lines rest'"
          using 1 [rule_format, of rest' "[]"] spec_lines_nonempty [of rest'] by (simp add: Cons r)
        then show ?thesis by (simp add: Cons r c spec_lines_CRLF CR_neq_LF)
      next
        case False
        then have cond: "c \<noteq> CR \<or> (rest \<noteq> [] \<and> hd rest \<noteq> LF) \<or> rest = []"
          by (cases rest) auto
        have "split_lines_acc (cur @ [c]) rest
                = ((cur @ [c]) @ hd (spec_lines rest)) # tl (spec_lines rest)"
          using 1 [rule_format, of rest "cur @ [c]"] by (simp add: Cons)
        with nlf False show ?thesis
          by (simp add: Cons spec_lines_Cons [OF nlf cond])
      qed
    qed
  qed
qed

lemma split_lines_spec: "split_lines s = spec_lines s"
  using spec_lines_nonempty [of s] by (simp add: split_lines_def split_lines_acc_spec)

lemma join_with_spec: "join_with [LF] ls = spec_joined ls"
  by (induction "[LF]" ls rule: join_with.induct) (simp_all add: spec_joined_def)

lemma first_lines_spec: "first_lines sample = spec_first_lines sample"
  by (simp add: first_lines_def spec_first_lines_def split_lines_spec join_with_spec)

lemma spec_lines_no_LF: "l \<in> set (spec_lines s) \<Longrightarrow> LF \<notin> set l"
proof (induction s rule: spec_lines.induct)
  case (1 s)
  show ?case
  proof (cases "LF \<in> set s")
    case False
    with "1.prems" show ?thesis by (simp add: spec_lines.simps [of s])
  next
    case True
    have "LF \<notin> set (chomp (takeWhile (\<lambda>c. c \<noteq> LF) s))"
    proof
      assume "LF \<in> set (chomp (takeWhile (\<lambda>c. c \<noteq> LF) s))"
      then have "LF \<in> set (takeWhile (\<lambda>c. c \<noteq> LF) s)"
        by (auto simp: chomp_def dest: in_set_butlastD split: if_splits)
      then show False by (auto dest: set_takeWhileD)
    qed
    with True "1.prems" "1.IH" show ?thesis
      by (auto simp: spec_lines.simps [of s])
  qed
qed

lemma spec_lines_length: "length (spec_lines s) = Suc (length (filter (\<lambda>c. c = LF) s))"
proof (induction s rule: spec_lines.induct)
  case (1 s)
  show ?case
  proof (cases "LF \<in> set s")
    case False
    then have "filter (\<lambda>c. c = LF) s = []" by (auto simp: filter_empty_conv)
    with False show ?thesis by (simp add: spec_lines.simps [of s])
  next
    case True
    let ?p = "takeWhile (\<lambda>c. c \<noteq> LF) s" and ?d = "dropWhile (\<lambda>c. c \<noteq> LF) s"
    from True have "?d \<noteq> []" by (simp add: dropWhile_eq_Nil_conv)
    moreover from this have "hd ?d = LF" using hd_dropWhile [of "\<lambda>c. c \<noteq> LF" s] by simp
    ultimately have d: "?d = LF # tl ?d" by (cases ?d) auto
    have "filter (\<lambda>c. c = LF) ?p = []"
      by (auto simp: filter_empty_conv dest: set_takeWhileD)
    then have "filter (\<lambda>c. c = LF) (?p @ ?d) = LF # filter (\<lambda>c. c = LF) (tl ?d)"
      by (subst d) simp
    then have "length (filter (\<lambda>c. c = LF) s) = Suc (length (filter (\<lambda>c. c = LF) (tl ?d)))"
      by simp
    with True "1.IH" show ?thesis by (simp add: spec_lines.simps [of s])
  qed
qed

text \<open>
  C5. The candidates are comma, tab, semicolon, pipe and colon, tried in this order on
  the first 20 lines of the sample: the text the loop reads is the text of these lines,
  whatever follows them in the sample. A candidate has a score exactly when it
  qualifies, that is, yields at least two rows and a header of more than one column, and
  the score is then the one of the specification. When no candidate qualifies the answer
  is the comma; otherwise it is the first-seen candidate with the strictly highest
  score. The comparison of scores is the platform's: it is taken to order the scores
  that occur.
\<close>

theorem detectDelimiterByStructure_first_best:
  assumes "ordered_scores P
             (List.map_filter (spec_candidate_score P (spec_first_lines sample)) CANDIDATES)"
  shows "CANDIDATES = [CHR '','', TAB, CHR '';'', CHR ''|'', CHR '':'']
    \<and> length (spec_lines sample) = Suc (length (filter (\<lambda>c. c = LF) sample))
    \<and> (\<forall>l \<in> set (spec_lines sample). LF \<notin> set l)
    \<and> first_lines sample = spec_first_lines sample
    \<and> candidate_score P (first_lines sample) = spec_candidate_score P (spec_first_lines sample)
    \<and> ((\<forall>d \<in> set CANDIDATES. \<not> qualifies (spec_first_lines sample) d)
         \<longrightarrow> detectDelimiterByStructure P sample = CHR '','')
    \<and> ((\<exists>d \<in> set CANDIDATES. qualifies (spec_first_lines sample) d)
         \<longrightarrow> (\<exists>s. first_best P (spec_candidate_score P (spec_first_lines sample)) CANDIDATES
                   (detectDelimiterByStructure P sample) s))"
proof -
  let ?text = "first_lines sample"
  let ?cs = "candidate_score P ?text"
  let ?run = "foldl (detect_step P ?text) (CHR '','', neg_infinity P) CANDIDATES"
  have tx: "spec_first_lines sample = ?text"
    by (simp add: first_lines_spec)
  have cs: "spec_candidate_score P ?text = ?cs"
    by (rule ext) (simp add: candidate_score_spec spec_candidate_score_def)
  have none_iff: "?cs d = None \<longleftrightarrow> \<not> qualifies ?text d" for d
    by (simp add: candidate_score_spec)
  from assms have "ordered_scores P (List.map_filter ?cs CANDIDATES)"
    by (simp only: tx cs)
  then have sel: "((\<forall>d \<in> set CANDIDATES. ?cs d = None) \<and> ?run = (CHR '','', neg_infinity P))
       \<or> (\<exists>b s. ?run = (b, s) \<and> first_best P ?cs CANDIDATES b s)"
    by (rule detect_fold)
  have c1: "CANDIDATES = [CHR '','', TAB, CHR '';'', CHR ''|'', CHR '':'']"
    by (simp add: CANDIDATES_def)
  have c2: "length (spec_lines sample) = Suc (length (filter (\<lambda>c. c = LF) sample))"
    by (rule spec_lines_length)
  have c3: "\<forall>l \<in> set (spec_lines sample). LF \<notin> set l"
    using spec_lines_no_LF by blast
  have c6: "(\<forall>d \<in> set CANDIDATES. \<not> qualifies ?text d)
         \<longrightarrow> detectDelimiterByStructure P sample = CHR '',''"
  proof
    assume none: "\<forall>d \<in> set CANDIDATES. \<not> qualifies ?text d"
    have all_none: "?cs d = None" if "d \<in> set CANDIDATES" for d
    proof -
      from none that have "\<not> qualifies ?text d" by (rule bspec)
      then show ?thesis by (simp add: none_iff)
    qed
    have "?run = (CHR '','', neg_infinity P)"
    proof (rule disjE [OF sel])
      assume "(\<forall>d \<in> set CANDIDATES. ?cs d = None) \<and> ?run = (CHR '','', neg_infinity P)"
      then show ?thesis ..
    next
      assume "\<exists>b s. ?run = (b, s) \<and> first_best P ?cs CANDIDATES b s"
      then obtain b s where fb: "first_best P ?cs CANDIDATES b s" by blast
      from all_none [OF first_bestD(1) [OF fb]] first_bestD(2) [OF fb] have False by simp
      then show ?thesis ..
    qed
    then show "detectDelimiterByStructure P sample = CHR '',''"
      by (simp add: detectDelimiterByStructure_def)
  qed
  have c7: "(\<exists>d \<in> set CANDIDATES. qualifies ?text d)
         \<longrightarrow> (\<exists>s. first_best P ?cs CANDIDATES (detectDelimiterByStructure P sample) s)"
  proof
    assume "\<exists>d \<in> set CANDIDATES. qualifies ?text d"
    then obtain d where d: "d \<in> set CANDIDATES" and q: "qualifies ?text d" ..
    from q have sc: "?cs d \<noteq> None" by (simp add: none_iff)
    have "\<exists>b s. ?run = (b, s) \<and> first_best P ?cs CANDIDATES b s"
    proof (rule disjE [OF sel])
      assume "(\<forall>d \<in> set CANDIDATES. ?cs d = None) \<and> ?run = (CHR '','', neg_infinity P)"
      then have "\<forall>d \<in> set CANDIDATES. ?cs d = None" ..
      then have "?cs d = None" using d by (rule bspec)
      with sc show ?thesis ..
    qed
    then obtain b s where "?run = (b, s)" and fb: "first_best P ?cs CANDIDATES b s"
      by blast
    then have "detectDelimiterByStructure P sample = b"
      by (simp add: detectDelimiterByStructure_def)
    with fb show "\<exists>s. first_best P ?cs CANDIDATES (detectDelimiterByStructure P sample) s"
      by blast
  qed
  show ?thesis
    unfolding tx cs by (intro conjI refl c1 c2 c3 c6 c7)
qed

lemma tab_sample_scores:
  "first_lines [CHR ''a'', TAB, CHR ''b'', LF, CHR ''X'', TAB, CHR ''Y'']
     = [CHR ''a'', TAB, CHR ''b'', LF, CHR ''X'', TAB, CHR ''Y'']"
  "candidate_score exact_platform [CHR ''a'', TAB, CHR ''b'', LF, CHR ''X'', TAB, CHR ''Y'']
     (CHR '','') = None"
  "candidate_score exact_platform [CHR ''a'', TAB, CHR ''b'', LF, CHR ''X'', TAB, CHR ''Y'']
     (CHR '';'') = None"
  "candidate_score exact_platform [CHR ''a'', TAB, CHR ''b'', LF, CHR ''X'', TAB, CHR ''Y'']
     (CHR ''|'') = None"
  "candidate_score exact_platform [CHR ''a'', TAB, CHR ''b'', LF, CHR ''X'', TAB, CHR ''Y'']
     (CHR '':'') = None"
  "parseCSV [CHR ''a'', TAB, CHR ''b'', LF, CHR ''X'', TAB, CHR ''Y''] TAB
     = [[''a'', ''b''], [''X'', ''Y'']]"
  "nonblank_row [''X'', ''Y'']"
  by code_simp+

lemma tab_sample_tab:
  "candidate_score exact_platform [CHR ''a'', TAB, CHR ''b'', LF, CHR ''X'', TAB, CHR ''Y''] TAB
     = Some (XFin 100)"
  by (simp add: candidate_score_def tab_sample_scores Let_def exact_platform_def)

text \<open>
  A sample on which two candidates tie: read with a comma and read with a semicolon,
  both lines have two fields, so both candidates score 100, and the detector keeps the
  comma, which comes first in \<^const>\<open>CANDIDATES\<close>.
\<close>

lemma tie_sample_scores:
  "first_lines [CHR ''a'', CHR '','', CHR ''b'', CHR '';'', CHR ''c'', LF,
                CHR ''1'', CHR '','', CHR ''2'', CHR '';'', CHR ''3'']
     = [CHR ''a'', CHR '','', CHR ''b'', CHR '';'', CHR ''c'', LF,
        CHR ''1'', CHR '','', CHR ''2'', CHR '';'', CHR ''3'']"
  "candidate_score exact_platform
     [CHR ''a'', CHR '','', CHR ''b'', CHR '';'', CHR ''c'', LF,
      CHR ''1'', CHR '','', CHR ''2'', CHR '';'', CHR ''3''] TAB = None"
  "candidate_score exact_platform
     [CHR ''a'', CHR '','', CHR ''b'', CHR '';'', CHR ''c'', LF,
      CHR ''1'', CHR '','', CHR ''2'', CHR '';'', CHR ''3''] (CHR ''|'') = None"
  "candidate_score exact_platform
     [CHR ''a'', CHR '','', CHR ''b'', CHR '';'', CHR ''c'', LF,
      CHR ''1'', CHR '','', CHR ''2'', CHR '';'', CHR ''3''] (CHR '':'') = None"
  "parseCSV [CHR ''a'', CHR '','', CHR ''b'', CHR '';'', CHR ''c'', LF,
             CHR ''1'', CHR '','', CHR ''2'', CHR '';'', CHR ''3''] (CHR '','')
     = [[''a'', ''b;c''], [''1'', ''2;3'']]"
  "parseCSV [CHR ''a'', CHR '','', CHR ''b'', CHR '';'', CHR ''c'', LF,
             CHR ''1'', CHR '','', CHR ''2'', CHR '';'', CHR ''3''] (CHR '';'')
     = [[''a,b'', ''c''], [''1,2'', ''3'']]"
  "nonblank_row [''1'', ''2;3'']" "nonblank_row [''1,2'', ''3'']"
  by code_simp+

lemma tie_sample_comma:
  "candidate_score exact_platform
     [CHR ''a'', CHR '','', CHR ''b'', CHR '';'', CHR ''c'', LF,
      CHR ''1'', CHR '','', CHR ''2'', CHR '';'', CHR ''3''] (CHR '','') = Some (XFin 100)"
  "candidate_score exact_platform
     [CHR ''a'', CHR '','', CHR ''b'', CHR '';'', CHR ''c'', LF,
      CHR ''1'', CHR '','', CHR ''2'', CHR '';'', CHR ''3''] (CHR '';'') = Some (XFin 100)"
  by (simp_all add: candidate_score_def tie_sample_scores Let_def exact_platform_def)

lemma tie_sample_detect:
  "detectDelimiterByStructure exact_platform
     [CHR ''a'', CHR '','', CHR ''b'', CHR '';'', CHR ''c'', LF,
      CHR ''1'', CHR '','', CHR ''2'', CHR '';'', CHR ''3''] = CHR '',''"
  by (simp add: detectDelimiterByStructure_def CANDIDATES_def detect_step_def
      tie_sample_scores tie_sample_comma) (simp add: exact_platform_def)

text \<open>
  On the sample of 23 lines the semicolon wins, as it does on the first 20 lines alone;
  on the whole text the comma would have the higher score.
\<close>

lemma long_sample_lines:
  "length (spec_lines long_sample) = 23"
  "spec_first_lines long_sample = long_sample_head"
  by code_simp+

lemma long_sample_head_rows:
  "parseCSV long_sample_head (CHR '','') = [''a'', ''b;c''] # [''1;2''] # replicate 17 [[]]"
  "parseCSV long_sample_head (CHR '';'') = [''a,b'', ''c''] # [''1'', ''2''] # replicate 17 [[]]"
  "candidate_score exact_platform long_sample_head TAB = None"
  "candidate_score exact_platform long_sample_head (CHR ''|'') = None"
  "candidate_score exact_platform long_sample_head (CHR '':'') = None"
  by code_simp+

lemma long_sample_rows:
  "parseCSV long_sample (CHR '','')
     = [''a'', ''b;c''] # [''1;2''] # replicate 18 [[]] @ replicate 3 [''1'', ''2'']"
  "parseCSV long_sample (CHR '';'')
     = [''a,b'', ''c''] # [''1'', ''2''] # replicate 18 [[]] @ replicate 3 [''1,2'']"
  by code_simp+


lemma long_sample_head_scores:
  "candidate_score exact_platform long_sample_head (CHR '','') = Some (XFin (- 1985 / 361))"
  "candidate_score exact_platform long_sample_head (CHR '';'') = Some (XFin (33955 / 361))"
  by code_simp+


lemma long_sample_scores:
  "candidate_score exact_platform long_sample (CHR '','') = Some (XFin (155295 / 529))"
  "candidate_score exact_platform long_sample (CHR '';'') = Some (XFin (49835 / 529))"
  by code_simp+

lemma spec_candidate_score_eq: "spec_candidate_score P text d = candidate_score P text d"
  by (simp add: candidate_score_spec spec_candidate_score_def)

lemma tab_sample_lines:
  "spec_first_lines [CHR ''a'', TAB, CHR ''b'', LF, CHR ''X'', TAB, CHR ''Y'']
     = [CHR ''a'', TAB, CHR ''b'', LF, CHR ''X'', TAB, CHR ''Y'']"
  by code_simp

theorem detectDelimiterByStructure_first_best_witness:
  "ordered_scores exact_platform
     (List.map_filter (spec_candidate_score exact_platform (spec_first_lines long_sample))
        CANDIDATES)
   \<and> (\<exists>d \<in> set CANDIDATES. qualifies (spec_first_lines long_sample) d)
   \<and> length (spec_lines long_sample) = 23
   \<and> spec_first_lines long_sample = long_sample_head
   \<and> detectDelimiterByStructure exact_platform long_sample = CHR '';''
   \<and> candidate_score exact_platform long_sample (CHR '','') = Some (XFin (155295 / 529))
   \<and> candidate_score exact_platform long_sample (CHR '';'') = Some (XFin (49835 / 529))
   \<and> ordered_scores exact_platform
        (List.map_filter
           (spec_candidate_score exact_platform
              (spec_first_lines [CHR ''a'', TAB, CHR ''b'', LF, CHR ''X'', TAB, CHR ''Y'']))
           CANDIDATES)
   \<and> (\<exists>d \<in> set CANDIDATES.
         qualifies (spec_first_lines [CHR ''a'', TAB, CHR ''b'', LF, CHR ''X'', TAB, CHR ''Y'']) d)
   \<and> detectDelimiterByStructure exact_platform
        [CHR ''a'', TAB, CHR ''b'', LF, CHR ''X'', TAB, CHR ''Y''] = TAB"
proof -
  let ?cs = "spec_candidate_score exact_platform (spec_first_lines long_sample)"
  have scores: "List.map_filter ?cs CANDIDATES = [XFin (- 1985 / 361), XFin (33955 / 361)]"
    by (simp add: CANDIDATES_def spec_candidate_score_eq long_sample_lines
        long_sample_head_rows long_sample_head_scores List.map_filter_simps)
  have ord: "ordered_scores exact_platform (List.map_filter ?cs CANDIDATES)"
    unfolding scores by (simp add: ordered_scores_def exact_platform_def)
  note T = detectDelimiterByStructure_first_best [OF ord]
  have q: "qualifies (spec_first_lines long_sample) (CHR '';'')"
  proof (rule ccontr)
    assume "\<not> qualifies (spec_first_lines long_sample) (CHR '';'')"
    then have "?cs (CHR '';'') = None" by (simp add: spec_candidate_score_def)
    then show False
      by (simp add: spec_candidate_score_eq long_sample_lines long_sample_head_scores)
  qed
  have "CHR '';'' \<in> set CANDIDATES" by (simp add: CANDIDATES_def)
  with q have ex: "\<exists>d \<in> set CANDIDATES. qualifies (spec_first_lines long_sample) d" ..
  from T have "(\<exists>d \<in> set CANDIDATES. qualifies (spec_first_lines long_sample) d)
         \<longrightarrow> (\<exists>s. first_best exact_platform ?cs CANDIDATES
                   (detectDelimiterByStructure exact_platform long_sample) s)"
    by (elim conjE)
  with ex obtain s where fb: "first_best exact_platform ?cs CANDIDATES
      (detectDelimiterByStructure exact_platform long_sample) s"
    by blast
  have best: "detectDelimiterByStructure exact_platform long_sample = CHR '';''"
  proof -
    from first_bestD(1,2) [OF fb]
    have m: "detectDelimiterByStructure exact_platform long_sample \<in> set CANDIDATES"
      and sc: "?cs (detectDelimiterByStructure exact_platform long_sample) = Some s" .
    have "?cs (CHR '';'') = Some (XFin (33955 / 361))"
      by (simp add: spec_candidate_score_eq long_sample_lines long_sample_head_scores)
    with first_bestD(3) [OF fb \<open>CHR '';'' \<in> set CANDIDATES\<close>]
    have top: "\<not> num_gt exact_platform (XFin (33955 / 361)) s" .
    show ?thesis
    proof (rule ccontr)
      assume n: "detectDelimiterByStructure exact_platform long_sample \<noteq> CHR '';''"
      with m sc have "s = XFin (- 1985 / 361)"
        by (auto simp: CANDIDATES_def spec_candidate_score_eq long_sample_lines
            long_sample_head_rows long_sample_head_scores)
      with top show False by (simp add: exact_platform_def)
    qed
  qed
  let ?tab = "[CHR ''a'', TAB, CHR ''b'', LF, CHR ''X'', TAB, CHR ''Y'']"
  let ?ct = "spec_candidate_score exact_platform (spec_first_lines ?tab)"
  have tscores: "List.map_filter ?ct CANDIDATES = [XFin 100]"
    by (simp add: CANDIDATES_def spec_candidate_score_eq tab_sample_lines tab_sample_scores
        tab_sample_tab List.map_filter_simps)
  have tord: "ordered_scores exact_platform (List.map_filter ?ct CANDIDATES)"
    unfolding tscores by (simp add: ordered_scores_def exact_platform_def)
  note U = detectDelimiterByStructure_first_best [OF tord]
  have tq: "qualifies (spec_first_lines ?tab) TAB"
  proof (rule ccontr)
    assume "\<not> qualifies (spec_first_lines ?tab) TAB"
    then have "?ct TAB = None" by (simp add: spec_candidate_score_def)
    then show False
      by (simp add: spec_candidate_score_eq tab_sample_lines tab_sample_tab)
  qed
  have "TAB \<in> set CANDIDATES" by (simp add: CANDIDATES_def)
  with tq have tex: "\<exists>d \<in> set CANDIDATES. qualifies (spec_first_lines ?tab) d" ..
  from U have "(\<exists>d \<in> set CANDIDATES. qualifies (spec_first_lines ?tab) d)
         \<longrightarrow> (\<exists>s. first_best exact_platform ?ct CANDIDATES
                   (detectDelimiterByStructure exact_platform ?tab) s)"
    by (elim conjE)
  with tex obtain t where tfb: "first_best exact_platform ?ct CANDIDATES
      (detectDelimiterByStructure exact_platform ?tab) t"
    by blast
  have tbest: "detectDelimiterByStructure exact_platform ?tab = TAB"
  proof -
    from first_bestD(1,2) [OF tfb]
    have "detectDelimiterByStructure exact_platform ?tab \<in> set CANDIDATES"
      and "?ct (detectDelimiterByStructure exact_platform ?tab) = Some t" .
    then show ?thesis
      by (auto simp: CANDIDATES_def spec_candidate_score_eq tab_sample_lines tab_sample_scores)
  qed
  show ?thesis
    by (intro conjI ord ex long_sample_lines best long_sample_scores tord tex tbest)
qed

end
